theory Spec2Isabelle
  imports Complex_Main
begin

section \<open>The observatory dashboard: data model\<close>

text \<open>
  The development embeds \<^verbatim>\<open>src/App.tsx\<close>. The file holds two revisions of the component:
  the earlier one (no dates, a force-simulation pass per group) and the current one (one
  generation per date, a timeline filter). Functions of the earlier revision carry the
  suffix \<open>_v1\<close>; everything else is the current revision or is shared by both.

  JavaScript numbers are modelled as \<open>real\<close> where they are coordinates and draws (the
  rounding of doubles is not modelled) and as \<open>nat\<close> where they are loop counters and
  counts. Record fields carry a prefix (\<open>p_\<close>, \<open>n_\<close>,
  \<open>pr_\<close>, \<open>g_\<close>) because the source's field names (\<open>id\<close>, \<open>x\<close>, \<open>name\<close>, \<open>count\<close>)
  are taken in HOL.
\<close>

record Process =
  p_id :: string
  p_name :: string
  p_status :: string
  p_group :: string
  p_connections :: "string list"
  p_weight :: nat

record Properties =
  pr_name :: string
  pr_type :: string
  pr_status :: string
  processes :: "Process list"

record Node =
  n_id :: string
  n_x :: real
  n_y :: real
  n_radius :: real
  hasAnomaly :: bool
  n_tag :: string
  properties :: Properties
  n_date :: string

record Dimensions =
  width :: real
  height :: real

record GroupConfig =
  g_count :: nat
  anomalyRate :: real

record Subcluster =
  centerX :: real
  centerY :: real
  sc_radius :: real

subsection \<open>Numbers in template literals\<close>

text \<open>A non-negative integer inside a template literal prints in decimal.\<close>

definition digit_char :: "nat \<Rightarrow> char" where
  "digit_char d = ''0123456789'' ! d"

function string_of_nat :: "nat \<Rightarrow> string" where
  "string_of_nat n =
     (if n < 10 then [digit_char n]
      else string_of_nat (n div 10) @ [digit_char (n mod 10)])"
  by pat_completeness auto
termination
  by (relation "measure (\<lambda>n. n)") auto

declare string_of_nat.simps [simp del]

definition digit_val :: "char \<Rightarrow> nat" where
  "digit_val c = of_char c - 48"

definition nat_of_string :: "string \<Rightarrow> nat" where
  "nat_of_string s = foldl (\<lambda>a c. 10 * a + digit_val c) 0 s"

subsection \<open>The random source\<close>

text \<open>
  \<^verbatim>\<open>Math.random()\<close> is a global source. The model makes it explicit: \<open>rnd k\<close> is the
  value of the \<open>k\<close>-th call, and every function that draws takes the index of its first
  draw and returns the index after its last one. \<open>unit_rng\<close> is the contract of
  \<^verbatim>\<open>Math.random()\<close>: every value lies in \<open>[0, 1)\<close>.
\<close>

type_synonym rng = "nat \<Rightarrow> real"

definition unit_rng :: "rng \<Rightarrow> bool" where
  "unit_rng rnd = (\<forall>k. 0 \<le> rnd k \<and> rnd k < 1)"

text \<open>\<^verbatim>\<open>Math.floor(Math.random() * n)\<close>, a count or an index; never negative on a unit draw.\<close>

definition randomIndex :: "real \<Rightarrow> nat \<Rightarrow> nat" where
  "randomIndex u n = nat \<lfloor>u * real n\<rfloor>"

text \<open>\<^verbatim>\<open>arr[Math.floor(Math.random() * arr.length)]\<close>; out of range JavaScript yields
  \<^verbatim>\<open>undefined\<close>, which a template literal prints as such.\<close>

definition pick :: "string list \<Rightarrow> real \<Rightarrow> string" where
  "pick arr u =
     (let i = randomIndex u (length arr) in if i < length arr then arr ! i else ''undefined'')"

definition processGroups :: "string list" where
  "processGroups = [''Core'', ''Network'', ''Storage'', ''Security'', ''Monitoring'']"

definition nodeTypes :: "string list" where
  "nodeTypes = [''Server'', ''Database'', ''Service'']"

text \<open>\<^verbatim>\<open>Math.round\<close> rounds a half towards plus infinity.\<close>

definition jsRound :: "real \<Rightarrow> int" where
  "jsRound v = \<lfloor>v + 1 / 2\<rfloor>"

subsection \<open>Iteration with pushes\<close>

text \<open>
  A \<^verbatim>\<open>for\<close> or \<^verbatim>\<open>forEach\<close> loop whose body draws random numbers and pushes onto an
  array: the body maps the loop variable and the index of its first draw to what it pushes
  and the index after its last draw; the loop returns everything pushed, in order.
\<close>

fun forPush :: "('i \<Rightarrow> nat \<Rightarrow> 'a list \<times> nat) \<Rightarrow> 'i list \<Rightarrow> nat \<Rightarrow> 'a list \<times> nat" where
  "forPush body [] k = ([], k)"
| "forPush body (i # is) k =
     (let (vs, k1) = body i k; (ws, k2) = forPush body is k1 in (vs @ ws, k2))"

section \<open>The generator\<close>

subsection \<open>Processes of one asset (both revisions)\<close>

text \<open>The object literal pushed by both \<^verbatim>\<open>for\<close> statements over \<open>j\<close>; two draws (group, weight).\<close>

definition mkProcess :: "rng \<Rightarrow> string \<Rightarrow> nat \<Rightarrow> nat \<Rightarrow> string \<Rightarrow> nat \<Rightarrow> Process" where
  "mkProcess rnd tag i j status k =
     (let group = pick processGroups (rnd k);
          weight = randomIndex (rnd (k + 1)) 3 + 1
      in \<lparr> p_id = ''proc-'' @ tag @ ''-'' @ string_of_nat i @ ''-'' @ string_of_nat j,
           p_name = group @ '' Process '' @ string_of_nat j,
           p_status = status,
           p_group = group,
           p_connections = [],
           p_weight = weight \<rparr>)"

text \<open>\<^verbatim>\<open>for (let j = 0; j < problematicProcessCount; j++)\<close>\<close>

definition problematicProcesses :: "rng \<Rightarrow> string \<Rightarrow> nat \<Rightarrow> nat \<Rightarrow> nat \<Rightarrow> Process list \<times> nat" where
  "problematicProcesses rnd tag i problematicProcessCount k =
     forPush (\<lambda>j k. ([mkProcess rnd tag i j (if j mod 2 = 0 then ''Error'' else ''Warning'') k], k + 2))
       [0..<problematicProcessCount] k"

text \<open>\<^verbatim>\<open>for (let j = problematicProcessCount; j < processCount; j++)\<close>\<close>

definition normalProcesses :: "rng \<Rightarrow> string \<Rightarrow> nat \<Rightarrow> nat \<Rightarrow> nat \<Rightarrow> nat \<Rightarrow> Process list \<times> nat" where
  "normalProcesses rnd tag i problematicProcessCount processCount k =
     forPush (\<lambda>j k. ([mkProcess rnd tag i j ''OK'' k], k + 2))
       [problematicProcessCount..<processCount] k"

text \<open>One after the other: the array \<^verbatim>\<open>nodeProcesses\<close>.\<close>

definition createProcesses :: "rng \<Rightarrow> string \<Rightarrow> nat \<Rightarrow> nat \<Rightarrow> nat \<Rightarrow> nat \<Rightarrow> Process list \<times> nat" where
  "createProcesses rnd tag i problematicProcessCount processCount k =
     (let (bad, k1) = problematicProcesses rnd tag i problematicProcessCount k;
          (good, k2) = normalProcesses rnd tag i problematicProcessCount processCount k1
      in (bad @ good, k2))"

text \<open>The count of processes whose status is not \<^verbatim>\<open>'OK'\<close>, as the handlers and the
  detail panel compute it.\<close>

definition issues :: "Node \<Rightarrow> nat" where
  "issues node = length (filter (\<lambda>p. p_status p \<noteq> ''OK'') (processes (properties node)))"

subsection \<open>The group table and the per-date scaling (current revision)\<close>

definition groups :: "(string \<times> GroupConfig) list" where
  "groups =
     [(''Production'', \<lparr> g_count = 568, anomalyRate = 0.08 \<rparr>),
      (''Staging'', \<lparr> g_count = 384, anomalyRate = 0.05 \<rparr>),
      (''Development'', \<lparr> g_count = 287, anomalyRate = 0.03 \<rparr>),
      (''Testing'', \<lparr> g_count = 133, anomalyRate = 0.02 \<rparr>),
      (''Monitoring'', \<lparr> g_count = 50, anomalyRate = 0.1 \<rparr>)]"

text \<open>\<^verbatim>\<open>Object.values(groups).reduce((sum, g) => sum + g.count, 0)\<close>\<close>

definition currentTotal :: nat where
  "currentTotal = foldl (\<lambda>sum g. sum + g_count g) 0 (map snd groups)"

text \<open>\<^verbatim>\<open>Math.floor(Math.random() * (1455 - 1410 + 1)) + 1410\<close>\<close>

definition totalNodesForDate :: "real \<Rightarrow> nat" where
  "totalNodesForDate u = randomIndex u (1455 - 1410 + 1) + 1410"

definition scaleFactor :: "nat \<Rightarrow> real" where
  "scaleFactor dayTotal = real dayTotal / real currentTotal"

text \<open>\<^verbatim>\<open>Math.round(config.count * scaleFactor)\<close>\<close>

definition scaledCount :: "GroupConfig \<Rightarrow> nat \<Rightarrow> nat" where
  "scaledCount config dayTotal = nat (jsRound (real (g_count config) * scaleFactor dayTotal))"

text \<open>\<^verbatim>\<open>Array.from({ length: subclusterCount }, () => ({ centerX, centerY, radius }))\<close>:
  entry \<open>m\<close> takes the draws \<open>k + 2 m\<close> and \<open>k + 2 m + 1\<close>.\<close>

definition mkSubclusters :: "rng \<Rightarrow> Dimensions \<Rightarrow> nat \<Rightarrow> nat \<Rightarrow> Subcluster list" where
  "mkSubclusters rnd dimensions subclusterCount k =
     map (\<lambda>m. \<lparr> centerX = rnd (k + 2 * m) * (width dimensions * 0.6) + width dimensions * 0.2,
                centerY = rnd (k + 2 * m + 1) * (height dimensions * 0.6) + height dimensions * 0.2,
                sc_radius = min (width dimensions) (height dimensions) * 0.15 \<rparr>)
       [0..<subclusterCount]"

text \<open>The clustered-angular placement, the same expressions in both revisions: \<open>groupSize\<close> is
  the number of assets of the group, \<open>u1\<close> and \<open>u2\<close> the draws for the angle variation and
  the distance.\<close>

definition placeNode :: "Subcluster \<Rightarrow> bool \<Rightarrow> nat \<Rightarrow> nat \<Rightarrow> nat \<Rightarrow> real \<Rightarrow> real \<Rightarrow> real \<times> real" where
  "placeNode subcluster anomalous i groupSize subclusterCount u1 u2 =
     (let baseAngle = (real i / (real groupSize / real subclusterCount)) * pi * 2;
          angleVariation = (u1 - 0.5) * 0.2;
          angle = baseAngle + angleVariation;
          minDistance = sc_radius subcluster * (if anomalous then 0.5 else 0.4);
          maxDistance = sc_radius subcluster * (if anomalous then 0.8 else 0.9);
          distance = minDistance + u2 * (maxDistance - minDistance)
      in (centerX subcluster + cos angle * distance, centerY subcluster + sin angle * distance))"

text \<open>The body of \<^verbatim>\<open>for (let i = 0; i < scaledCount; i++)\<close> of the current revision. The
  draws, in order: anomaly, angle variation, distance, process count, problematic count
  (only for an anomalous asset), two per process, type. The loop runs only when
  \<open>scaledCount\<close> is positive, so \<open>subclusterCount\<close> is positive and the subcluster index
  is in range.\<close>

definition createNode ::
  "rng \<Rightarrow> string \<Rightarrow> GroupConfig \<Rightarrow> string \<Rightarrow> Subcluster list \<Rightarrow> nat \<Rightarrow> nat \<Rightarrow> nat \<Rightarrow> nat \<Rightarrow> Node \<times> nat" where
  "createNode rnd tag config date subclusters subclusterCount groupSize i k =
     (let anomalous = rnd k < anomalyRate config;
          subcluster = subclusters ! (i mod subclusterCount);
          (x, y) = placeNode subcluster anomalous i groupSize subclusterCount (rnd (k + 1)) (rnd (k + 2));
          processCount = randomIndex (rnd (k + 3)) 100 + 1;
          (problematicProcessCount, k1) =
             (if anomalous then (randomIndex (rnd (k + 4)) 9 + 1, k + 5) else (0, k + 4));
          (nodeProcesses, k2) = createProcesses rnd tag i problematicProcessCount processCount k1
      in (\<lparr> n_id = tag @ ''-'' @ date @ ''-'' @ string_of_nat i,
            n_x = x,
            n_y = y,
            n_radius = 5,
            hasAnomaly = anomalous,
            n_tag = tag,
            properties =
              \<lparr> pr_name = tag @ '' Asset '' @ string_of_nat i,
                pr_type = pick nodeTypes (rnd k2),
                pr_status = (if anomalous then ''Warning'' else ''Active''),
                processes = nodeProcesses \<rparr>,
            n_date = date \<rparr>, k2 + 1))"

text \<open>The body of \<^verbatim>\<open>Object.entries(groups).forEach(([tag, config]) => ...)\<close>.\<close>

definition generateGroup ::
  "rng \<Rightarrow> Dimensions \<Rightarrow> string \<Rightarrow> nat \<Rightarrow> string \<times> GroupConfig \<Rightarrow> nat \<Rightarrow> Node list \<times> nat" where
  "generateGroup rnd dimensions date dayTotal entry k =
     (let tag = fst entry; config = snd entry;
          count = scaledCount config dayTotal;
          subclusterCount = nat \<lceil>real count / 15\<rceil>;
          subclusters = mkSubclusters rnd dimensions subclusterCount k
      in forPush
           (\<lambda>i k. let (node, k') = createNode rnd tag config date subclusters subclusterCount count i k
                  in ([node], k'))
           [0..<count] (k + 2 * subclusterCount))"

text \<open>The body of \<^verbatim>\<open>dates.forEach(date => ...)\<close>: one draw for the day's total, then every
  group.\<close>

definition generateDate :: "rng \<Rightarrow> Dimensions \<Rightarrow> string \<Rightarrow> nat \<Rightarrow> Node list \<times> nat" where
  "generateDate rnd dimensions date k =
     forPush (generateGroup rnd dimensions date (totalNodesForDate (rnd k))) groups (k + 1)"

definition generateNodes :: "rng \<Rightarrow> Dimensions \<Rightarrow> string list \<Rightarrow> Node list" where
  "generateNodes rnd dimensions dates = fst (forPush (generateDate rnd dimensions) dates 0)"

subsection \<open>The earlier revision: one generation, a force simulation per group\<close>

text \<open>The entries of \<^verbatim>\<open>allNodes\<close>: a position and the anomaly flag.\<close>

record SimNode =
  s_x :: real
  s_y :: real
  s_hasAnomaly :: bool

text \<open>The body of \<^verbatim>\<open>for (let i = 0; i < config.count; i++)\<close> of the earlier revision. The
  draws, in order: process count, anomaly, problematic count (only for an anomalous asset),
  two per process, angle variation, distance, type. A node of this revision has no date;
  the field stays empty.\<close>

definition createNode_v1 ::
  "rng \<Rightarrow> string \<Rightarrow> GroupConfig \<Rightarrow> Subcluster list \<Rightarrow> nat \<Rightarrow> nat \<Rightarrow> nat \<Rightarrow> Node \<times> nat" where
  "createNode_v1 rnd tag config subclusters subclusterCount i k =
     (let processCount = randomIndex (rnd k) 100 + 1;
          anomalous = rnd (k + 1) < anomalyRate config;
          (problematicProcessCount, k1) =
             (if anomalous then (randomIndex (rnd (k + 2)) 9 + 1, k + 3) else (0, k + 2));
          (nodeProcesses, k2) = createProcesses rnd tag i problematicProcessCount processCount k1;
          subcluster = subclusters ! (i mod subclusterCount);
          (x, y) = placeNode subcluster anomalous i (g_count config) subclusterCount (rnd k2) (rnd (k2 + 1))
      in (\<lparr> n_id = tag @ ''-'' @ string_of_nat i,
            n_x = x,
            n_y = y,
            n_radius = 5,
            hasAnomaly = anomalous,
            n_tag = tag,
            properties =
              \<lparr> pr_name = tag @ '' Asset '' @ string_of_nat i,
                pr_type = pick nodeTypes (rnd (k2 + 2)),
                pr_status = (if anomalous then ''Warning'' else ''Active''),
                processes = nodeProcesses \<rparr>,
            n_date = [] \<rparr>, k2 + 3))"

text \<open>\<^verbatim>\<open>Array.prototype.findIndex\<close>: the first index whose element satisfies the predicate;
  \<open>None\<close> stands for \<open>-1\<close>.\<close>

fun findIndex :: "('a \<Rightarrow> bool) \<Rightarrow> 'a list \<Rightarrow> nat option" where
  "findIndex P [] = None"
| "findIndex P (v # vs) = (if P v then Some 0 else map_option Suc (findIndex P vs))"

text \<open>\<^verbatim>\<open>Math.max(minDistance, Math.min(dimension - minDistance, v))\<close>\<close>

definition clampInto :: "real \<Rightarrow> real \<Rightarrow> real \<Rightarrow> real" where
  "clampInto minDistance dimension v = max minDistance (min (dimension - minDistance) v)"

text \<open>The collision radius of the simulation and the margin of the clamp.\<close>

definition margin :: "bool \<Rightarrow> real" where
  "margin anomalous = (if anomalous then 60 else 25)"

text \<open>The body of \<^verbatim>\<open>allNodes.forEach((node, i) => ...)\<close> after the ticks: the entry of
  \<^verbatim>\<open>nodes\<close> to write is looked up by the anomaly flag and the position of the simulated
  node.\<close>

definition updateNode :: "Dimensions \<Rightarrow> SimNode \<Rightarrow> Node list \<Rightarrow> Node list" where
  "updateNode dimensions node nodes =
     (case findIndex (\<lambda>n. hasAnomaly n = s_hasAnomaly node \<and> n_x n = s_x node \<and> n_y n = s_y node) nodes of
        None \<Rightarrow> nodes
      | Some nodeIndex \<Rightarrow>
          (let minDistance = margin (s_hasAnomaly node)
           in nodes[nodeIndex := (nodes ! nodeIndex)
                \<lparr> n_x := clampInto minDistance (width dimensions) (s_x node),
                  n_y := clampInto minDistance (height dimensions) (s_y node) \<rparr>]))"

definition updatePositions :: "Dimensions \<Rightarrow> SimNode list \<Rightarrow> Node list \<Rightarrow> Node list" where
  "updatePositions dimensions allNodes nodes = fold (updateNode dimensions) allNodes nodes"

text \<open>The 800 ticks of \<^verbatim>\<open>d3.forceSimulation(allNodes)\<close> run in the d3-force library; they
  move the entries of \<^verbatim>\<open>allNodes\<close> in place and leave the anomaly flag alone. The library
  is a parameter of the model: \<open>simulate dimensions allNodes j\<close> is the position of entry
  \<open>j\<close> after the ticks.\<close>

type_synonym simulation = "Dimensions \<Rightarrow> SimNode list \<Rightarrow> nat \<Rightarrow> real \<times> real"

definition runSimulation :: "simulation \<Rightarrow> Dimensions \<Rightarrow> SimNode list \<Rightarrow> SimNode list" where
  "runSimulation simulate dimensions allNodes =
     map (\<lambda>j. (allNodes ! j) \<lparr> s_x := fst (simulate dimensions allNodes j),
                               s_y := snd (simulate dimensions allNodes j) \<rparr>)
       [0..<length allNodes]"

text \<open>The second pass, \<^verbatim>\<open>groupProcesses.forEach((process, index) => ...)\<close>: one draw per
  process, then the ids of the next 2 to 4 processes of the group, cyclically.\<close>

definition connectionsFor :: "rng \<Rightarrow> Process list \<Rightarrow> nat \<Rightarrow> nat \<Rightarrow> string list \<times> nat" where
  "connectionsFor rnd groupProcesses index k =
     (let numConnections = randomIndex (rnd k) 3 + 2
      in (map (\<lambda>c. p_id (groupProcesses ! ((index + c + 1) mod length groupProcesses)))
            [0..<numConnections], k + 1))"

text \<open>The processes in \<^verbatim>\<open>groupProcesses\<close> are the very objects in the nodes' arrays, in the
  same order, so the pushes onto \<^verbatim>\<open>process.connections\<close> show in the nodes: process \<open>j\<close>
  of a node whose first process has the index \<open>offset\<close> in \<^verbatim>\<open>groupProcesses\<close> receives the
  connections of index \<open>offset + j\<close>.\<close>

fun assignConnections :: "(nat \<Rightarrow> string list) \<Rightarrow> nat \<Rightarrow> Node list \<Rightarrow> Node list" where
  "assignConnections conn offset [] = []"
| "assignConnections conn offset (n # ns) =
     (let ps = processes (properties n)
      in n \<lparr> properties := (properties n)
               \<lparr> processes := map (\<lambda>j. (ps ! j) \<lparr> p_connections := p_connections (ps ! j) @ conn (offset + j) \<rparr>)
                                 [0..<length ps] \<rparr> \<rparr>
         # assignConnections conn (offset + length ps) ns)"

text \<open>The first part of the body of \<^verbatim>\<open>Object.entries(groups).forEach(([tag, config]) => ...)\<close>
  of the earlier revision: the subclusters and the loop that creates the group's nodes.\<close>

definition createGroupNodes_v1 :: "rng \<Rightarrow> Dimensions \<Rightarrow> string \<times> GroupConfig \<Rightarrow> nat \<Rightarrow> Node list \<times> nat" where
  "createGroupNodes_v1 rnd dimensions entry k =
     (let tag = fst entry; config = snd entry;
          subclusterCount = nat \<lceil>real (g_count config) / 15\<rceil>;
          subclusters = mkSubclusters rnd dimensions subclusterCount k
      in forPush (\<lambda>i k. let (node, k') = createNode_v1 rnd tag config subclusters subclusterCount i k
                         in ([node], k'))
           [0..<g_count config] (k + 2 * subclusterCount))"

text \<open>\<^verbatim>\<open>if (allNodes.length > 0) { ... }\<close>: the simulation over the group's positions, then
  the update of \<^verbatim>\<open>nodes\<close>, the array shared by all groups.\<close>

definition declutter :: "simulation \<Rightarrow> Dimensions \<Rightarrow> Node list \<Rightarrow> Node list \<Rightarrow> Node list" where
  "declutter simulate dimensions created nodes =
     (let allNodes = map (\<lambda>n. \<lparr> s_x = n_x n, s_y = n_y n, s_hasAnomaly = hasAnomaly n \<rparr>) created
      in if length allNodes > 0
         then updatePositions dimensions (runSimulation simulate dimensions allNodes) nodes
         else nodes)"

text \<open>The second pass over \<^verbatim>\<open>groupProcesses\<close>: one draw per process, so the process of
  index \<open>index\<close> draws at \<open>k + index\<close>; \<open>current\<close> are the group's nodes as they stand in
  \<^verbatim>\<open>nodes\<close>.\<close>

definition connectProcesses :: "rng \<Rightarrow> Node list \<Rightarrow> Node list \<Rightarrow> nat \<Rightarrow> Node list \<times> nat" where
  "connectProcesses rnd created current k =
     (let groupProcesses = concat (map (\<lambda>n. processes (properties n)) created);
          conn = (\<lambda>index. fst (connectionsFor rnd groupProcesses index (k + index)))
      in (assignConnections conn 0 current, k + length groupProcesses))"

text \<open>The whole body for one group; \<^verbatim>\<open>nodes\<close> is passed in and returned, with the index of
  the next draw.\<close>

definition generateGroup_v1 ::
  "simulation \<Rightarrow> rng \<Rightarrow> Dimensions \<Rightarrow> string \<times> GroupConfig \<Rightarrow> Node list \<times> nat \<Rightarrow> Node list \<times> nat" where
  "generateGroup_v1 simulate rnd dimensions entry st =
     (let nodes = fst st;
          (created, k1) = createGroupNodes_v1 rnd dimensions entry (snd st);
          moved = declutter simulate dimensions created (nodes @ created);
          (connected, k2) = connectProcesses rnd created (drop (length nodes) moved) k1
      in (take (length nodes) moved @ connected, k2))"

definition generateNodes_v1 :: "simulation \<Rightarrow> rng \<Rightarrow> Dimensions \<Rightarrow> Node list" where
  "generateNodes_v1 simulate rnd dimensions =
     fst (fold (generateGroup_v1 simulate rnd dimensions) groups ([], 0))"

section \<open>Aggregation and interaction (current revision)\<close>

subsection \<open>Hexagonal bins\<close>

text \<open>
  Modelled from the spec: the \<^verbatim>\<open>hexbin\<close> generator of the d3-hexbin package, which
  \<^verbatim>\<open>App.tsx\<close> calls and whose code is not part of the repository. The spec describes a
  hex cell as the grouping of the assets whose positions fall in the same hexagonal cell,
  holding the contained asset references. \<open>cellOf\<close> is the assignment of a position to
  its cell (fixed by the radius 15); a bin is created when the first asset of its cell is
  met, and every asset is pushed onto the bin of its cell.
\<close>

fun pushIntoBin :: "'c \<Rightarrow> Node \<Rightarrow> ('c \<times> Node list) list \<Rightarrow> ('c \<times> Node list) list" where
  "pushIntoBin cell point [] = [(cell, [point])]"
| "pushIntoBin cell point (b # bins) =
     (if fst b = cell then (fst b, snd b @ [point]) # bins else b # pushIntoBin cell point bins)"

text \<open>
  Modelled from the spec: the call \<^verbatim>\<open>hexbin(points)\<close> of the d3-hexbin generator (missing, see
  above): the bins in the order in which their first asset is met, each with its assets in
  the order of the input.
\<close>

definition hexbin :: "(real \<times> real \<Rightarrow> 'c) \<Rightarrow> Node list \<Rightarrow> Node list list" where
  "hexbin cellOf points =
     map snd (fold (\<lambda>point bins. pushIntoBin (cellOf (n_x point, n_y point)) point bins) points [])"

subsection \<open>View state and handlers\<close>

record ViewState =
  nodes :: "Node list"
  currentDate :: string
  selectedNode :: "Node option"
  expandedProcess :: "string option"

text \<open>The memo \<^verbatim>\<open>filteredData\<close>; the empty string is the falsy \<^verbatim>\<open>currentDate\<close>.\<close>

definition filteredData :: "ViewState \<Rightarrow> Node list" where
  "filteredData s = (if currentDate s = [] then [] else filter (\<lambda>d. n_date d = currentDate s) (nodes s))"

text \<open>The bins the render effect draws and the number the counter shows.\<close>

definition bins :: "(real \<times> real \<Rightarrow> 'c) \<Rightarrow> ViewState \<Rightarrow> Node list list" where
  "bins cellOf s = hexbin cellOf (filteredData s)"

definition totalCount :: "ViewState \<Rightarrow> nat" where
  "totalCount s = length (filteredData s)"

text \<open>\<^verbatim>\<open>d.reduce((max, node) => currentIssues > maxIssues ? node : max, d[0])\<close>; on an empty
  array \<^verbatim>\<open>d[0]\<close> is \<^verbatim>\<open>undefined\<close> and so is the result.\<close>

definition nodeWithMostIssues :: "Node list \<Rightarrow> Node option" where
  "nodeWithMostIssues d =
     (case d of
        [] \<Rightarrow> None
      | d0 # _ \<Rightarrow> Some (foldl (\<lambda>max node. if issues node > issues max then node else max) d0 d))"

datatype Event =
    DateChange string
  | HexClick "Node list"
  | CloseClick
  | CanvasClick
  | ProcessClick string

text \<open>The state setters the handlers call: the timeline's \<^verbatim>\<open>onDateChange\<close>, the click on a
  hexagon, the close icon, the click on the empty canvas, the click on a process row.\<close>

fun handleEvent :: "Event \<Rightarrow> ViewState \<Rightarrow> ViewState" where
  "handleEvent (DateChange date) s = s \<lparr> currentDate := date \<rparr>"
| "handleEvent (HexClick d) s = s \<lparr> selectedNode := nodeWithMostIssues d \<rparr>"
| "handleEvent CloseClick s = s \<lparr> selectedNode := None \<rparr>"
| "handleEvent CanvasClick s = s \<lparr> selectedNode := None \<rparr>"
| "handleEvent (ProcessClick procId) s =
     s \<lparr> expandedProcess := (if expandedProcess s = Some procId then None else Some procId) \<rparr>"

text \<open>The effect with the dependency \<^verbatim>\<open>[selectedNode]\<close>.\<close>

definition expandFirstSuspicious :: "ViewState \<Rightarrow> ViewState" where
  "expandFirstSuspicious s =
     (case selectedNode s of
        None \<Rightarrow> s \<lparr> expandedProcess := None \<rparr>
      | Some node \<Rightarrow>
          if hasAnomaly node
          then (case find (\<lambda>proc. p_status proc \<noteq> ''OK'') (processes (properties node)) of
                  None \<Rightarrow> s
                | Some firstSuspiciousProcess \<Rightarrow> s \<lparr> expandedProcess := Some (p_id firstSuspiciousProcess) \<rparr>)
          else s \<lparr> expandedProcess := None \<rparr>)"

text \<open>One event: the handler sets state, then the effect runs if its dependency changed.\<close>

definition dispatch :: "Event \<Rightarrow> ViewState \<Rightarrow> ViewState" where
  "dispatch ev s =
     (let s' = handleEvent ev s
      in if selectedNode s' \<noteq> selectedNode s then expandFirstSuspicious s' else s')"

subsection \<open>The dependency graph of an expanded process\<close>

record GraphNode =
  gn_id :: string
  gn_name :: string
  gn_status :: string
  gn_group :: string

record Link =
  l_source :: string
  l_target :: string
  l_value :: real

text \<open>The callback of \<^verbatim>\<open>Array.from({ length: nodeCount }, (_, i) => ...)\<close>: the second
  status draw happens only when the first is at most 0.8.\<close>

definition mkGraphNode :: "rng \<Rightarrow> nat \<Rightarrow> nat \<Rightarrow> GraphNode list \<times> nat" where
  "mkGraphNode rnd i k =
     (let (status, k1) =
            (if rnd k > 0.8 then (''Error'', k + 1)
             else if rnd (k + 1) > 0.6 then (''Warning'', k + 2) else (''OK'', k + 2))
      in ([\<lparr> gn_id = ''node-'' @ string_of_nat i,
             gn_name = ''Component '' @ string_of_nat i,
             gn_status = status,
             gn_group = pick processGroups (rnd k1) \<rparr>], k1 + 1))"

text \<open>The body of the inner loop over \<open>j\<close>: a target is drawn, and a link is pushed (with one
  more draw for its value) unless the target is the node itself. On a unit draw the target
  index is below the number of nodes.\<close>

definition mkLink :: "rng \<Rightarrow> GraphNode list \<Rightarrow> nat \<Rightarrow> nat \<Rightarrow> nat \<Rightarrow> Link list \<times> nat" where
  "mkLink rnd graphNodes i j k =
     (let targetIndex = randomIndex (rnd k) (length graphNodes)
      in if targetIndex \<noteq> i
         then ([\<lparr> l_source = gn_id (graphNodes ! i),
                  l_target = gn_id (graphNodes ! targetIndex),
                  l_value = rnd (k + 1) * 3 + 1 \<rparr>], k + 2)
         else ([], k + 1))"

text \<open>The body of the outer loop over \<open>i\<close>: the links pushed for node \<open>i\<close>.\<close>

definition linksFrom :: "rng \<Rightarrow> GraphNode list \<Rightarrow> nat \<Rightarrow> nat \<Rightarrow> Link list \<times> nat" where
  "linksFrom rnd graphNodes i k =
     (let connectionCount = randomIndex (rnd k) 3 + 1
      in forPush (mkLink rnd graphNodes i) [0..<connectionCount] (k + 1))"

text \<open>\<^verbatim>\<open>renderProcessGraph(processId, containerId)\<close> up to the data it hands to the force
  layout: nothing when the container is not mounted, else the nodes and the links.\<close>

definition renderProcessGraph ::
  "rng \<Rightarrow> string \<Rightarrow> bool \<Rightarrow> nat \<Rightarrow> (GraphNode list \<times> Link list) option" where
  "renderProcessGraph rnd processId containerMounted k =
     (if \<not> containerMounted then None
      else
        (let nodeCount = randomIndex (rnd k) 6 + 15;
             (graphNodes, k1) = forPush (mkGraphNode rnd) [0..<nodeCount] (k + 1);
             (links, k2) = forPush (linksFrom rnd graphNodes) [0..<length graphNodes] k1
         in Some (graphNodes, links)))"

section \<open>Process objects and their owners\<close>

text \<open>
  A process is an object. Every pass of the two \<^verbatim>\<open>for\<close> statements over \<open>j\<close> evaluates the
  object literal once, which creates a new object, and pushes it onto \<^verbatim>\<open>nodeProcesses\<close>, the
  array that becomes \<^verbatim>\<open>properties.processes\<close> of the node pushed at the end of the same
  pass over \<open>i\<close>. Two objects may hold equal values (the first Production asset of two days
  has the same ids, names and statuses on a source that repeats its draws), so the values
  above cannot say which asset holds which object. To tell the objects apart the generation
  is followed once more with a second counter beside the index of the next draw: the number
  of process objects created so far, which is the name of the next object. The functions of
  this section carry the suffix \<open>_obj\<close>; they take the draws exactly as the functions they
  follow and return, with every node, the names of the objects in its \<^verbatim>\<open>processes\<close> array,
  in order.
\<close>

text \<open>A statement that draws, creates objects and pushes: like \<open>forPush\<close>, with both counters.\<close>

fun forPush_obj :: "('i \<Rightarrow> nat \<Rightarrow> nat \<Rightarrow> 'a list \<times> nat \<times> nat) \<Rightarrow> 'i list \<Rightarrow> nat \<Rightarrow> nat \<Rightarrow> 'a list \<times> nat \<times> nat" where
  "forPush_obj body [] k h = ([], k, h)"
| "forPush_obj body (i # is) k h =
     (let (vs, k1, h1) = body i k h; (ws, k2, h2) = forPush_obj body is k1 h1 in (vs @ ws, k2, h2))"

text \<open>The two \<^verbatim>\<open>for\<close> statements over \<open>j\<close>, one after the other: every pass takes two draws,
  creates the object \<open>h\<close> with the value of the literal and pushes it.\<close>

definition createProcesses_obj ::
  "rng \<Rightarrow> string \<Rightarrow> nat \<Rightarrow> nat \<Rightarrow> nat \<Rightarrow> nat \<Rightarrow> nat \<Rightarrow> (nat \<times> Process) list \<times> nat \<times> nat" where
  "createProcesses_obj rnd tag i problematicProcessCount processCount k h =
     (let (bad, k1, h1) =
            forPush_obj (\<lambda>j k h. ([(h, mkProcess rnd tag i j (if j mod 2 = 0 then ''Error'' else ''Warning'') k)], k + 2, h + 1))
              [0..<problematicProcessCount] k h;
          (good, k2, h2) =
            forPush_obj (\<lambda>j k h. ([(h, mkProcess rnd tag i j ''OK'' k)], k + 2, h + 1))
              [problematicProcessCount..<processCount] k1 h1
      in (bad @ good, k2, h2))"

text \<open>The body of the statement over \<open>i\<close> of the current revision: the counts that bound
  the two statements over \<open>j\<close> are drawn as in \<open>createNode\<close>, the node pushed is the one
  \<open>createNode\<close> returns, and the objects are those pushed onto its \<^verbatim>\<open>nodeProcesses\<close>. The
  last draw is the one for the type.\<close>

definition createNode_obj ::
  "rng \<Rightarrow> string \<Rightarrow> GroupConfig \<Rightarrow> string \<Rightarrow> Subcluster list \<Rightarrow> nat \<Rightarrow> nat \<Rightarrow> nat \<Rightarrow> nat \<Rightarrow> nat \<Rightarrow>
     (Node \<times> nat list) list \<times> nat \<times> nat" where
  "createNode_obj rnd tag config date subclusters subclusterCount groupSize i k h =
     (let anomalous = rnd k < anomalyRate config;
          processCount = randomIndex (rnd (k + 3)) 100 + 1;
          (problematicProcessCount, k1) =
             (if anomalous then (randomIndex (rnd (k + 4)) 9 + 1, k + 5) else (0, k + 4));
          (nodeProcesses, k2, h2) = createProcesses_obj rnd tag i problematicProcessCount processCount k1 h;
          node = fst (createNode rnd tag config date subclusters subclusterCount groupSize i k)
      in ([(node, map fst nodeProcesses)], k2 + 1, h2))"

definition generateGroup_obj ::
  "rng \<Rightarrow> Dimensions \<Rightarrow> string \<Rightarrow> nat \<Rightarrow> string \<times> GroupConfig \<Rightarrow> nat \<Rightarrow> nat \<Rightarrow> (Node \<times> nat list) list \<times> nat \<times> nat" where
  "generateGroup_obj rnd dimensions date dayTotal entry k h =
     (let tag = fst entry; config = snd entry;
          count = scaledCount config dayTotal;
          subclusterCount = nat \<lceil>real count / 15\<rceil>;
          subclusters = mkSubclusters rnd dimensions subclusterCount k
      in forPush_obj (createNode_obj rnd tag config date subclusters subclusterCount count)
           [0..<count] (k + 2 * subclusterCount) h)"

definition generateDate_obj :: "rng \<Rightarrow> Dimensions \<Rightarrow> string \<Rightarrow> nat \<Rightarrow> nat \<Rightarrow> (Node \<times> nat list) list \<times> nat \<times> nat" where
  "generateDate_obj rnd dimensions date k h =
     forPush_obj (generateGroup_obj rnd dimensions date (totalNodesForDate (rnd k))) groups (k + 1) h"

definition generateNodes_obj :: "rng \<Rightarrow> Dimensions \<Rightarrow> string list \<Rightarrow> (Node \<times> nat list) list \<times> nat \<times> nat" where
  "generateNodes_obj rnd dimensions dates = forPush_obj (generateDate_obj rnd dimensions) dates 0 0"

text \<open>The same for the earlier revision, whose body over \<open>i\<close> draws the process count first
  and the two placement draws and the type after the processes. There every object is pushed
  onto \<^verbatim>\<open>groupProcesses\<close> as well, an array of the group's pass that no node holds.\<close>

definition createNode_v1_obj ::
  "rng \<Rightarrow> string \<Rightarrow> GroupConfig \<Rightarrow> Subcluster list \<Rightarrow> nat \<Rightarrow> nat \<Rightarrow> nat \<Rightarrow> nat \<Rightarrow>
     (Node \<times> nat list) list \<times> nat \<times> nat" where
  "createNode_v1_obj rnd tag config subclusters subclusterCount i k h =
     (let processCount = randomIndex (rnd k) 100 + 1;
          anomalous = rnd (k + 1) < anomalyRate config;
          (problematicProcessCount, k1) =
             (if anomalous then (randomIndex (rnd (k + 2)) 9 + 1, k + 3) else (0, k + 2));
          (nodeProcesses, k2, h2) = createProcesses_obj rnd tag i problematicProcessCount processCount k1 h;
          node = fst (createNode_v1 rnd tag config subclusters subclusterCount i k)
      in ([(node, map fst nodeProcesses)], k2 + 3, h2))"

definition createGroupNodes_v1_obj ::
  "rng \<Rightarrow> Dimensions \<Rightarrow> string \<times> GroupConfig \<Rightarrow> nat \<Rightarrow> nat \<Rightarrow> (Node \<times> nat list) list \<times> nat \<times> nat" where
  "createGroupNodes_v1_obj rnd dimensions entry k h =
     (let tag = fst entry; config = snd entry;
          subclusterCount = nat \<lceil>real (g_count config) / 15\<rceil>;
          subclusters = mkSubclusters rnd dimensions subclusterCount k
      in forPush_obj (createNode_v1_obj rnd tag config subclusters subclusterCount)
           [0..<g_count config] (k + 2 * subclusterCount) h)"

text \<open>The simulation pass writes positions into entries of \<^verbatim>\<open>nodes\<close> and the second pass
  pushes ids onto the \<^verbatim>\<open>connections\<close> of the processes in \<^verbatim>\<open>groupProcesses\<close>, which are the
  objects already in the nodes' arrays: neither creates a process object nor moves one to
  another array. So the nodes after the group are those of \<open>generateGroup_v1\<close>, each with the
  objects it had (the earlier groups' nodes) or was created with (this group's).\<close>

definition generateGroup_v1_obj ::
  "simulation \<Rightarrow> rng \<Rightarrow> Dimensions \<Rightarrow> string \<times> GroupConfig \<Rightarrow>
     (Node \<times> nat list) list \<times> nat \<times> nat \<Rightarrow> (Node \<times> nat list) list \<times> nat \<times> nat" where
  "generateGroup_v1_obj simulate rnd dimensions entry st =
     (let owned = fst st; k = fst (snd st); h = snd (snd st);
          (created, k1, h1) = createGroupNodes_v1_obj rnd dimensions entry k h;
          (nodes, k2) = generateGroup_v1 simulate rnd dimensions entry (map fst owned, k)
      in (zip nodes (map snd owned @ map snd created), k2, h1))"

definition generateNodes_v1_obj :: "simulation \<Rightarrow> rng \<Rightarrow> Dimensions \<Rightarrow> (Node \<times> nat list) list \<times> nat \<times> nat" where
  "generateNodes_v1_obj simulate rnd dimensions =
     fold (generateGroup_v1_obj simulate rnd dimensions) groups ([], 0, 0)"

section \<open>Predicates of the properties and inputs of the examples\<close>

text \<open>Two nodes that differ at most in their position and in the connections of their
  processes: what the simulation pass and the second pass of the earlier revision may change.\<close>

definition alike :: "Node \<Rightarrow> Node \<Rightarrow> bool" where
  "alike n c =
     (hasAnomaly n = hasAnomaly c \<and> n_tag n = n_tag c \<and> n_id n = n_id c \<and> n_date n = n_date c \<and>
      pr_name (properties n) = pr_name (properties c) \<and>
      map p_id (processes (properties n)) = map p_id (processes (properties c)) \<and>
      map p_status (processes (properties n)) = map p_status (processes (properties c)))"

text \<open>A node of the earlier revision's result is, up to \<open>alike\<close>, what \<open>createNode_v1\<close>
  returned for some entry of the group table.\<close>

definition fromGroup_v1 :: "rng \<Rightarrow> Dimensions \<Rightarrow> Node \<Rightarrow> bool" where
  "fromGroup_v1 rnd dims n =
     (\<exists>entry\<in>set groups. \<exists>i k k'. i < g_count (snd entry) \<and>
        alike n (fst (createNode_v1 rnd (fst entry) (snd entry)
                      (mkSubclusters rnd dims (nat \<lceil>real (g_count (snd entry)) / 15\<rceil>) k)
                      (nat \<lceil>real (g_count (snd entry)) / 15\<rceil>) i k')))"

text \<open>The position lies within the viewport, with the node's margin on every side.\<close>

definition inBounds :: "Dimensions \<Rightarrow> Node \<Rightarrow> bool" where
  "inBounds dimensions n =
     (margin (hasAnomaly n) \<le> n_x n \<and> n_x n \<le> width dimensions - margin (hasAnomaly n) \<and>
      margin (hasAnomaly n) \<le> n_y n \<and> n_y n \<le> height dimensions - margin (hasAnomaly n))"

text \<open>The statuses \<^verbatim>\<open>'Error'\<close>, \<^verbatim>\<open>'Warning'\<close>, \<^verbatim>\<open>'Error'\<close>, ... of \<open>m\<close> problematic processes.\<close>

definition alternating :: "nat \<Rightarrow> string list" where
  "alternating m = map (\<lambda>j. if j mod 2 = 0 then ''Error'' else ''Warning'') [0..<m]"

text \<open>The status list of a generated asset: \<open>m\<close> alternating statuses, then \<open>r\<close> times
  \<^verbatim>\<open>'OK'\<close>, with \<open>m\<close> in 1..9 exactly for an anomalous asset and at most 100 processes.\<close>

definition statusShape :: "Node \<Rightarrow> bool" where
  "statusShape n =
     (\<exists>m r. map p_status (processes (properties n)) = alternating m @ replicate r ''OK'' \<and>
            (if hasAnomaly n then 1 \<le> m \<and> m \<le> 9 else m = 0) \<and> 1 \<le> m + r \<and> m + r \<le> 100)"

text \<open>The non-OK processes of an asset alternate \<^verbatim>\<open>'Error'\<close>, \<^verbatim>\<open>'Warning'\<close> from \<^verbatim>\<open>'Error'\<close> on,
  and the process the selection effect expands is the first of them, an \<^verbatim>\<open>'Error'\<close>.\<close>

definition alternates :: "Node \<Rightarrow> bool" where
  "alternates a =
     ((\<forall>j < issues a.
         p_status (filter (\<lambda>p. p_status p \<noteq> ''OK'') (processes (properties a)) ! j) =
           (if j mod 2 = 0 then ''Error'' else ''Warning'')) \<and>
      (\<exists>p\<in>set (processes (properties a)).
         find (\<lambda>proc. p_status proc \<noteq> ''OK'') (processes (properties a)) = Some p \<and>
         p_status p = ''Error'' \<and>
         (\<forall>s. expandedProcess (expandFirstSuspicious (s \<lparr> selectedNode := Some a \<rparr>)) = Some (p_id p))))"

text \<open>Concrete inputs: a source that always returns 0, a 1280 by 720 viewport, and a
  stand-in for the simulation that leaves every position where it is.\<close>

definition rnd_zero :: rng where
  "rnd_zero = (\<lambda>k. 0)"

definition viewport :: Dimensions where
  "viewport = \<lparr> width = 1280, height = 720 \<rparr>"

definition sim_still :: simulation where
  "sim_still = (\<lambda>dimensions allNodes j. (s_x (allNodes ! j), s_y (allNodes ! j)))"

text \<open>The ids of an asset's processes are built from the asset's tag, its index within
  the group (the one in its name) and the position of the process; the date takes no part.\<close>

definition idsFollowScheme :: "Node \<Rightarrow> bool" where
  "idsFollowScheme a =
     (\<exists>i. pr_name (properties a) = n_tag a @ '' Asset '' @ string_of_nat i \<and>
          map p_id (processes (properties a)) =
            map (\<lambda>j. ''proc-'' @ n_tag a @ ''-'' @ string_of_nat i @ ''-'' @ string_of_nat j)
              [0..<length (processes (properties a))])"

text \<open>Two days of a date range.\<close>

definition two_dates :: "string list" where
  "two_dates = [''2024-05-01'', ''2024-05-02'']"

text \<open>A narrow window.\<close>

definition narrow_viewport :: Dimensions where
  "narrow_viewport = \<lparr> width = 600, height = 800 \<rparr>"

text \<open>Small concrete data: a process with a given status, an asset with a given id, date
  and list of process statuses, a cell of three assets with 1, 2 and 2 non-OK processes, and
  two view states.\<close>

definition sample_process :: "string \<Rightarrow> Process" where
  "sample_process status =
     \<lparr> p_id = ''proc-Production-0-0'', p_name = ''Core Process 0'', p_status = status,
       p_group = ''Core'', p_connections = [], p_weight = 1 \<rparr>"

definition sample_node :: "string \<Rightarrow> string \<Rightarrow> string list \<Rightarrow> Node" where
  "sample_node ident date statuses =
     \<lparr> n_id = ident, n_x = 400, n_y = 300, n_radius = 5,
       hasAnomaly = list_ex (\<lambda>status. status \<noteq> ''OK'') statuses,
       n_tag = ''Production'',
       properties = \<lparr> pr_name = ''Production Asset 0'', pr_type = ''Server'',
                      pr_status = (if list_ex (\<lambda>status. status \<noteq> ''OK'') statuses then ''Warning'' else ''Active''),
                      processes = map sample_process statuses \<rparr>,
       n_date = date \<rparr>"

definition sample_cell :: "Node list" where
  "sample_cell =
     [sample_node ''a'' ''2024-05-01'' [''Error'', ''OK''],
      sample_node ''b'' ''2024-05-01'' [''Error'', ''Warning'', ''OK''],
      sample_node ''c'' ''2024-05-01'' [''Error'', ''Warning'']]"

definition idle_state :: ViewState where
  "idle_state = \<lparr> nodes = sample_cell, currentDate = ''2024-05-01'', selectedNode = None, expandedProcess = None \<rparr>"

definition selected_state :: ViewState where
  "selected_state =
     \<lparr> nodes = [sample_node ''a'' ''2024-05-01'' [''OK''], sample_node ''b'' ''2024-05-02'' [''OK'']],
       currentDate = ''2024-05-01'',
       selectedNode = Some (sample_node ''a'' ''2024-05-01'' [''OK'']),
       expandedProcess = None \<rparr>"

text \<open>A stand-in for the cell of a position: a rectangular grid of the size of a hexagon of
  radius 15.\<close>

definition grid_cell :: "real \<times> real \<Rightarrow> int \<times> int" where
  "grid_cell pos = (\<lfloor>fst pos / 26\<rfloor>, \<lfloor>snd pos / 45 * 2\<rfloor>)"



text \<open>More concrete inputs: a source that always returns one half; a range that holds the
  same day twice, as \<^verbatim>\<open>toISOString\<close> prints two local days around a change of the clock; a
  source for the earlier revision that places the first asset far to the right (the first
  subcluster's centre draw, index 0, and the asset's distance draw, index 82, are 0.99, its
  angle variation draw, index 81, is 0.5, every other draw is 0); and a stand-in for a
  simulation that has pushed the copies apart, copy \<open>j\<close> to \<open>(120 j, 120 j)\<close>, so that no two
  collision discs overlap.\<close>

definition rnd_half :: rng where
  "rnd_half = (\<lambda>k. 1 / 2)"


definition rnd_far :: rng where
  "rnd_far = (\<lambda>k. if k = 0 then 99 / 100 else if k = 81 then 1 / 2 else if k = 82 then 99 / 100 else 0)"

definition sim_spread :: simulation where
  "sim_spread = (\<lambda>dimensions allNodes j. (120 * real j, 120 * real j))"

section \<open>Auxiliary facts\<close>

lemma forPush_Cons_fst:
  "fst (forPush body (i # js) k) = fst (body i k) @ fst (forPush body js (snd (body i k)))"
  by (simp split: prod.splits)

lemma forPush_Cons_snd:
  "snd (forPush body (i # js) k) = snd (forPush body js (snd (body i k)))"
  by (simp split: prod.splits)

lemma forPush_origin:
  "v \<in> set (fst (forPush body js k)) \<Longrightarrow> \<exists>i \<in> set js. \<exists>k'. v \<in> set (fst (body i k'))"
proof (induction js arbitrary: k)
  case Nil
  then show ?case by simp
next
  case (Cons j js)
  from Cons.prems have "v \<in> set (fst (body j k)) \<or> v \<in> set (fst (forPush body js (snd (body j k))))"
    by (simp only: forPush_Cons_fst set_append Un_iff)
  then show ?case
  proof
    assume "v \<in> set (fst (body j k))"
    then show ?thesis by auto
  next
    assume "v \<in> set (fst (forPush body js (snd (body j k))))"
    from Cons.IH [OF this] show ?thesis by auto
  qed
qed

lemma forPush_single:
  "forPush (\<lambda>j k. ([f j k], k + c)) js k =
     (map (\<lambda>m. f (js ! m) (k + c * m)) [0..<length js], k + c * length js)"
proof (induction js arbitrary: k)
  case Nil
  show ?case by simp
next
  case (Cons j js)
  have "map (\<lambda>m. f ((j # js) ! m) (k + c * m)) [0..<length (j # js)] =
        f j k # map (\<lambda>m. f (js ! m) (k + c + c * m)) [0..<length js]"
    by (simp add: map_upt_Suc del: upt_Suc) (simp add: algebra_simps)
  then show ?case using Cons.IH [of "k + c"] by (simp add: algebra_simps)
qed

lemma forPush_upt:
  "forPush (\<lambda>j k. ([f j k], k + c)) [a..<b] k =
     (map (\<lambda>j. f j (k + c * (j - a))) [a..<b], k + c * (b - a))"
proof -
  have "map (\<lambda>m. f ([a..<b] ! m) (k + c * m)) [0..<length [a..<b]] = map (\<lambda>j. f j (k + c * (j - a))) [a..<b]"
    by (rule nth_equalityI) auto
  then show ?thesis by (simp add: forPush_single)
qed

lemma createProcesses_eq:
  "createProcesses rnd tag i ppc pc k =
     (map (\<lambda>j. mkProcess rnd tag i j (if j mod 2 = 0 then ''Error'' else ''Warning'') (k + 2 * j)) [0..<ppc]
      @ map (\<lambda>j. mkProcess rnd tag i j ''OK'' (k + 2 * ppc + 2 * (j - ppc))) [ppc..<pc],
      k + 2 * ppc + 2 * (pc - ppc))"
  unfolding createProcesses_def problematicProcesses_def normalProcesses_def forPush_upt
  by simp

lemma digit_val_char: "d < 10 \<Longrightarrow> digit_val (digit_char d) = d"
proof -
  assume "d < 10"
  then have "d \<in> {0, 1, 2, 3, 4, 5, 6, 7, 8, 9}" by auto
  then show ?thesis
    by (auto simp: digit_val_def digit_char_def)
qed

lemma nat_of_string_snoc: "nat_of_string (s @ [c]) = 10 * nat_of_string s + digit_val c"
  by (simp add: nat_of_string_def)

lemma nat_of_string_of_nat: "nat_of_string (string_of_nat n) = n"
proof (induction n rule: string_of_nat.induct)
  case (1 n)
  show ?case
  proof (cases "n < 10")
    case True
    then show ?thesis
      by (subst string_of_nat.simps) (simp add: nat_of_string_def digit_val_char)
  next
    case False
    then show ?thesis using 1
      by (subst string_of_nat.simps) (simp add: nat_of_string_snoc digit_val_char)
  qed
qed

lemma string_of_nat_inj: "string_of_nat m = string_of_nat n \<longleftrightarrow> m = n"
  by (metis nat_of_string_of_nat)

lemma randomIndex_less:
  assumes "0 \<le> u" "u < 1" "0 < n"
  shows "randomIndex u n < n"
proof -
  have "u * real n < real n" using assms by simp
  then have "\<lfloor>u * real n\<rfloor> < int n" by (simp add: floor_less_iff)
  moreover have "0 \<le> \<lfloor>u * real n\<rfloor>" using assms by simp
  ultimately show ?thesis unfolding randomIndex_def by linarith
qed

lemma createProcesses_status:
  "map p_status (fst (createProcesses rnd tag i ppc pc k)) =
     map (\<lambda>j. if j mod 2 = 0 then ''Error'' else ''Warning'') [0..<ppc] @ replicate (pc - ppc) ''OK''"
  by (simp add: createProcesses_eq mkProcess_def Let_def comp_def map_replicate_const)

lemma createProcesses_ids:
  "map p_id (fst (createProcesses rnd tag i ppc pc k)) =
     map (\<lambda>j. ''proc-'' @ tag @ ''-'' @ string_of_nat i @ ''-'' @ string_of_nat j) ([0..<ppc] @ [ppc..<pc])"
  by (simp add: createProcesses_eq mkProcess_def Let_def comp_def)

lemma createProcesses_length:
  "length (fst (createProcesses rnd tag i ppc pc k)) = max pc ppc"
  by (simp add: createProcesses_eq)

lemma filter_status_count:
  "length (filter (\<lambda>p. p_status p \<noteq> ''OK'') ps) = length (filter (\<lambda>s. s \<noteq> ''OK'') (map p_status ps))"
  by (induction ps) auto

lemma createNode_processes:
  "processes (properties (fst (createNode rnd tag config date scs sc gs i k))) =
     fst (createProcesses rnd tag i
            (if rnd k < anomalyRate config then randomIndex (rnd (k + 4)) 9 + 1 else 0)
            (randomIndex (rnd (k + 3)) 100 + 1)
            (if rnd k < anomalyRate config then k + 5 else k + 4))"
  unfolding createNode_def Let_def split_beta by simp

lemma createNode_hasAnomaly:
  "hasAnomaly (fst (createNode rnd tag config date scs sc gs i k)) = (rnd k < anomalyRate config)"
  unfolding createNode_def Let_def split_beta by simp

lemma createNode_labels:
  "n_tag (fst (createNode rnd tag config date scs sc gs i k)) = tag"
  "n_date (fst (createNode rnd tag config date scs sc gs i k)) = date"
  "pr_name (properties (fst (createNode rnd tag config date scs sc gs i k))) = tag @ '' Asset '' @ string_of_nat i"
  unfolding createNode_def Let_def split_beta by simp_all

lemma createNode_v1_processes:
  "processes (properties (fst (createNode_v1 rnd tag config scs sc i k))) =
     fst (createProcesses rnd tag i
            (if rnd (k + 1) < anomalyRate config then randomIndex (rnd (k + 2)) 9 + 1 else 0)
            (randomIndex (rnd k) 100 + 1)
            (if rnd (k + 1) < anomalyRate config then k + 3 else k + 2))"
  unfolding createNode_v1_def Let_def split_beta by simp

lemma createNode_v1_hasAnomaly:
  "hasAnomaly (fst (createNode_v1 rnd tag config scs sc i k)) = (rnd (k + 1) < anomalyRate config)"
  unfolding createNode_v1_def Let_def split_beta by simp

lemma generateGroup_origin:
  assumes "n \<in> set (fst (generateGroup rnd dims date dayTotal entry k))"
  shows "\<exists>i k'. i < scaledCount (snd entry) dayTotal \<and>
           n = fst (createNode rnd (fst entry) (snd entry) date
                      (mkSubclusters rnd dims (nat \<lceil>real (scaledCount (snd entry) dayTotal) / 15\<rceil>) k)
                      (nat \<lceil>real (scaledCount (snd entry) dayTotal) / 15\<rceil>)
                      (scaledCount (snd entry) dayTotal) i k')"
proof -
  from forPush_origin [OF assms [unfolded generateGroup_def Let_def]]
  obtain i k' where "i \<in> set [0..<scaledCount (snd entry) dayTotal]"
    and "n \<in> set (fst (case createNode rnd (fst entry) (snd entry) date
                      (mkSubclusters rnd dims (nat \<lceil>real (scaledCount (snd entry) dayTotal) / 15\<rceil>) k)
                      (nat \<lceil>real (scaledCount (snd entry) dayTotal) / 15\<rceil>)
                      (scaledCount (snd entry) dayTotal) i k' of (node, k'') \<Rightarrow> ([node], k'')))"
    by auto
  then show ?thesis by (auto simp: split_beta)
qed

lemma generateNodes_origin:
  assumes "n \<in> set (generateNodes rnd dims dates)"
  shows "\<exists>date\<in>set dates. \<exists>entry\<in>set groups. \<exists>dayTotal k0 i k' k1.
           dayTotal = totalNodesForDate (rnd k0) \<and> i < scaledCount (snd entry) dayTotal \<and>
           n = fst (createNode rnd (fst entry) (snd entry) date
                      (mkSubclusters rnd dims (nat \<lceil>real (scaledCount (snd entry) dayTotal) / 15\<rceil>) k1)
                      (nat \<lceil>real (scaledCount (snd entry) dayTotal) / 15\<rceil>)
                      (scaledCount (snd entry) dayTotal) i k')"
proof -
  have "\<exists>date\<in>set dates. \<exists>k0. n \<in> set (fst (generateDate rnd dims date k0))"
    using assms unfolding generateNodes_def by (rule forPush_origin)
  then obtain date k0 where d: "date \<in> set dates"
    and nd: "n \<in> set (fst (generateDate rnd dims date k0))"
    by blast
  have "\<exists>entry\<in>set groups. \<exists>k1. n \<in> set (fst (generateGroup rnd dims date (totalNodesForDate (rnd k0)) entry k1))"
    using nd unfolding generateDate_def by (rule forPush_origin)
  then obtain entry k1 where e: "entry \<in> set groups"
    and ng: "n \<in> set (fst (generateGroup rnd dims date (totalNodesForDate (rnd k0)) entry k1))"
    by blast
  from generateGroup_origin [OF ng] obtain i k' where
    i: "i < scaledCount (snd entry) (totalNodesForDate (rnd k0))" and
    n: "n = fst (createNode rnd (fst entry) (snd entry) date
                      (mkSubclusters rnd dims (nat \<lceil>real (scaledCount (snd entry) (totalNodesForDate (rnd k0))) / 15\<rceil>) k1)
                      (nat \<lceil>real (scaledCount (snd entry) (totalNodesForDate (rnd k0))) / 15\<rceil>)
                      (scaledCount (snd entry) (totalNodesForDate (rnd k0))) i k')"
    by blast
  show ?thesis
    by (rule bexI [OF _ d], rule bexI [OF _ e], rule exI [of _ "totalNodesForDate (rnd k0)"],
        rule exI [of _ k0], rule exI [of _ i], rule exI [of _ k'], rule exI [of _ k1])
      (use i n in blast)
qed

lemma alike_refl: "alike n n"
  by (simp add: alike_def)

lemma alike_trans: "alike a b \<Longrightarrow> alike b c \<Longrightarrow> alike a c"
  by (simp add: alike_def)

lemma findIndex_Some:
  "findIndex P vs = Some j \<Longrightarrow> j < length vs \<and> P (vs ! j)"
proof (induction vs arbitrary: j)
  case Nil
  then show ?case by simp
next
  case (Cons v vs)
  then show ?case by (cases "P v") auto
qed

lemma updateNode_alike: "list_all2 alike (updateNode dims node ns) ns"
proof (cases "findIndex (\<lambda>n. hasAnomaly n = s_hasAnomaly node \<and> n_x n = s_x node \<and> n_y n = s_y node) ns")
  case None
  then show ?thesis by (simp add: updateNode_def list_all2_refl alike_refl)
next
  case (Some j)
  have "list_all2 alike (ns[j := (ns ! j)\<lparr> n_x := clampInto (margin (s_hasAnomaly node)) (width dims) (s_x node),
            n_y := clampInto (margin (s_hasAnomaly node)) (height dims) (s_y node) \<rparr>]) (ns[j := ns ! j])"
    by (rule list_all2_update_cong) (simp_all add: list_all2_refl alike_refl alike_def)
  then show ?thesis using Some by (simp add: updateNode_def Let_def)
qed

lemma updatePositions_alike: "list_all2 alike (updatePositions dims sims ns) ns"
  unfolding updatePositions_def
proof (induction sims arbitrary: ns)
  case Nil
  show ?case by (simp add: list_all2_refl alike_refl)
next
  case (Cons s sims)
  have "list_all2 alike (fold (updateNode dims) sims (updateNode dims s ns)) (updateNode dims s ns)"
    by (rule Cons.IH)
  from list_all2_trans [OF _ this updateNode_alike] show ?case
    by (simp add: alike_trans)
qed

lemma map_nth_fun: "map (\<lambda>j. f (xs ! j)) [0..<length xs] = map f xs"
  by (rule nth_equalityI) simp_all

lemma assignConnections_alike: "list_all2 alike (assignConnections conn off ns) ns"
  by (induction ns arbitrary: off) (simp_all add: Let_def alike_def comp_def map_nth_fun)

lemma assignConnections_place:
  "map (\<lambda>n. (n_x n, n_y n, hasAnomaly n)) (assignConnections conn off ns) =
   map (\<lambda>n. (n_x n, n_y n, hasAnomaly n)) ns"
  by (induction ns arbitrary: off) (simp_all add: Let_def)

lemma list_all2_memD:
  assumes "list_all2 P xs ys" "x \<in> set xs"
  shows "\<exists>y\<in>set ys. P x y"
proof -
  from assms(2) obtain j where j: "j < length xs" "xs ! j = x"
    by (auto simp: in_set_conv_nth)
  with assms(1) have "P x (ys ! j)" "j < length ys"
    by (auto dest: list_all2_nthD list_all2_lengthD)
  then show ?thesis by auto
qed

lemma createGroupNodes_v1_origin:
  assumes "c \<in> set (fst (createGroupNodes_v1 rnd dims entry k))"
  shows "\<exists>i k'. i < g_count (snd entry) \<and>
           c = fst (createNode_v1 rnd (fst entry) (snd entry)
                      (mkSubclusters rnd dims (nat \<lceil>real (g_count (snd entry)) / 15\<rceil>) k)
                      (nat \<lceil>real (g_count (snd entry)) / 15\<rceil>) i k')"
proof -
  from forPush_origin [OF assms [unfolded createGroupNodes_v1_def Let_def]]
  obtain i k' where "i \<in> set [0..<g_count (snd entry)]"
    and "c \<in> set (fst (case createNode_v1 rnd (fst entry) (snd entry)
                      (mkSubclusters rnd dims (nat \<lceil>real (g_count (snd entry)) / 15\<rceil>) k)
                      (nat \<lceil>real (g_count (snd entry)) / 15\<rceil>) i k' of (node, k'') \<Rightarrow> ([node], k'')))"
    by auto
  then show ?thesis by (auto simp: split_beta)
qed

lemma declutter_alike: "list_all2 alike (declutter sim dims created ns) ns"
  by (simp add: declutter_def Let_def updatePositions_alike list_all2_refl alike_refl)

lemma generateGroup_v1_fst:
  "fst (generateGroup_v1 sim rnd dims entry st) =
     take (length (fst st)) (declutter sim dims (fst (createGroupNodes_v1 rnd dims entry (snd st)))
                               (fst st @ fst (createGroupNodes_v1 rnd dims entry (snd st))))
     @ fst (connectProcesses rnd (fst (createGroupNodes_v1 rnd dims entry (snd st)))
              (drop (length (fst st)) (declutter sim dims (fst (createGroupNodes_v1 rnd dims entry (snd st)))
                               (fst st @ fst (createGroupNodes_v1 rnd dims entry (snd st)))))
              (snd (createGroupNodes_v1 rnd dims entry (snd st))))"
  unfolding generateGroup_v1_def Let_def split_beta by simp

lemma connectProcesses_alike: "list_all2 alike (fst (connectProcesses rnd created cur k)) cur"
  by (simp add: connectProcesses_def Let_def assignConnections_alike)

lemma generateGroup_v1_alike:
  "list_all2 alike (fst (generateGroup_v1 sim rnd dims entry st))
     (fst st @ fst (createGroupNodes_v1 rnd dims entry (snd st)))"
proof -
  let ?created = "fst (createGroupNodes_v1 rnd dims entry (snd st))"
  let ?moved = "declutter sim dims ?created (fst st @ ?created)"
  let ?m = "length (fst st)"
  have "list_all2 alike (take ?m ?moved @ fst (connectProcesses rnd ?created (drop ?m ?moved) (snd (createGroupNodes_v1 rnd dims entry (snd st)))))
          (take ?m ?moved @ drop ?m ?moved)"
    by (rule list_all2_appendI) (simp_all add: list_all2_refl alike_refl connectProcesses_alike)
  then have "list_all2 alike (fst (generateGroup_v1 sim rnd dims entry st)) ?moved"
    by (simp only: generateGroup_v1_fst append_take_drop_id)
  from list_all2_trans [OF _ this declutter_alike] show ?thesis
    by (blast intro: alike_trans)
qed

lemma generateGroup_v1_from:
  assumes "entry \<in> set groups" "\<forall>n\<in>set (fst st). fromGroup_v1 rnd dims n"
  shows "\<forall>n\<in>set (fst (generateGroup_v1 sim rnd dims entry st)). fromGroup_v1 rnd dims n"
proof
  fix n assume "n \<in> set (fst (generateGroup_v1 sim rnd dims entry st))"
  from list_all2_memD [OF generateGroup_v1_alike this]
  obtain c where c: "c \<in> set (fst st) \<or> c \<in> set (fst (createGroupNodes_v1 rnd dims entry (snd st)))"
    and a: "alike n c" by auto
  from c show "fromGroup_v1 rnd dims n"
  proof
    assume "c \<in> set (fst st)"
    with assms(2) have "fromGroup_v1 rnd dims c" by blast
    with a show ?thesis unfolding fromGroup_v1_def by (blast intro: alike_trans)
  next
    assume "c \<in> set (fst (createGroupNodes_v1 rnd dims entry (snd st)))"
    from createGroupNodes_v1_origin [OF this] a assms(1) show ?thesis
      unfolding fromGroup_v1_def by blast
  qed
qed

lemma generateNodes_v1_origin:
  "\<forall>n\<in>set (generateNodes_v1 sim rnd dims). fromGroup_v1 rnd dims n"
proof -
  have "\<forall>n\<in>set (fst (fold (generateGroup_v1 sim rnd dims) groups ([], 0))). fromGroup_v1 rnd dims n"
    by (rule fold_invariant [where Q = "\<lambda>e. e \<in> set groups"]) (simp_all add: generateGroup_v1_from)
  then show ?thesis by (simp add: generateNodes_v1_def)
qed

lemma issues_statuses:
  "issues n = length (filter (\<lambda>s. s \<noteq> ''OK'') (map p_status (processes (properties n))))"
  by (simp add: issues_def filter_status_count)

lemma filter_alternating: "filter (\<lambda>s. s \<noteq> ''OK'') (alternating m) = alternating m"
  unfolding alternating_def by (rule filter_True) auto

lemma statuses_issues:
  assumes "map p_status (processes (properties n)) = alternating m @ replicate r ''OK''"
  shows "issues n = m"
  by (simp add: issues_statuses assms filter_alternating) (simp add: alternating_def)

lemma createNode_statuses:
  "map p_status (processes (properties (fst (createNode rnd tag config date scs sc gs i k)))) =
     alternating (if rnd k < anomalyRate config then randomIndex (rnd (k + 4)) 9 + 1 else 0)
     @ replicate (randomIndex (rnd (k + 3)) 100 + 1
                  - (if rnd k < anomalyRate config then randomIndex (rnd (k + 4)) 9 + 1 else 0)) ''OK''"
  by (simp only: createNode_processes createProcesses_status alternating_def)

lemma createNode_v1_statuses:
  "map p_status (processes (properties (fst (createNode_v1 rnd tag config scs sc i k)))) =
     alternating (if rnd (k + 1) < anomalyRate config then randomIndex (rnd (k + 2)) 9 + 1 else 0)
     @ replicate (randomIndex (rnd k) 100 + 1
                  - (if rnd (k + 1) < anomalyRate config then randomIndex (rnd (k + 2)) 9 + 1 else 0)) ''OK''"
  by (simp only: createNode_v1_processes createProcesses_status alternating_def)

lemma randomIndex_9: "unit_rng rnd \<Longrightarrow> randomIndex (rnd k) 9 + 1 \<le> 9"
  using randomIndex_less [of "rnd k" 9] by (simp add: unit_rng_def)

lemma randomIndex_100: "unit_rng rnd \<Longrightarrow> randomIndex (rnd k) 100 + 1 \<le> 100"
  using randomIndex_less [of "rnd k" 100] by (simp add: unit_rng_def)

lemma createNode_statusShape:
  assumes "unit_rng rnd"
  shows "statusShape (fst (createNode rnd tag config date scs sc gs i k))"
  unfolding statusShape_def
  apply (rule exI [of _ "if rnd k < anomalyRate config then randomIndex (rnd (k + 4)) 9 + 1 else 0"])
  apply (rule exI [of _ "randomIndex (rnd (k + 3)) 100 + 1
                  - (if rnd k < anomalyRate config then randomIndex (rnd (k + 4)) 9 + 1 else 0)"])
  using randomIndex_9 [OF assms, of "k + 4"] randomIndex_100 [OF assms, of "k + 3"]
  by (simp add: createNode_statuses createNode_hasAnomaly) linarith

lemma createNode_v1_statusShape:
  assumes "unit_rng rnd"
  shows "statusShape (fst (createNode_v1 rnd tag config scs sc i k))"
  unfolding statusShape_def
  apply (rule exI [of _ "if rnd (k + 1) < anomalyRate config then randomIndex (rnd (k + 2)) 9 + 1 else 0"])
  apply (rule exI [of _ "randomIndex (rnd k) 100 + 1
                  - (if rnd (k + 1) < anomalyRate config then randomIndex (rnd (k + 2)) 9 + 1 else 0)"])
  using randomIndex_9 [OF assms, of "k + 2"] randomIndex_100 [OF assms, of k]
  by (simp add: createNode_v1_statuses createNode_v1_hasAnomaly) linarith

lemma alike_statusShape: "alike n c \<Longrightarrow> statusShape c \<Longrightarrow> statusShape n"
  by (simp add: alike_def statusShape_def)

lemma generateNodes_statusShape:
  assumes "unit_rng rnd" "n \<in> set (generateNodes rnd dims dates)"
  shows "statusShape n"
  using generateNodes_origin [OF assms(2)] createNode_statusShape [OF assms(1)] by blast

lemma generateNodes_v1_statusShape:
  assumes "unit_rng rnd" "n \<in> set (generateNodes_v1 sim rnd dims)"
  shows "statusShape n"
  using generateNodes_v1_origin assms(2) createNode_v1_statusShape [OF assms(1)] alike_statusShape
  unfolding fromGroup_v1_def by blast

lemma statusShape_issues:
  assumes "statusShape n"
  shows "(hasAnomaly n \<longrightarrow> 1 \<le> issues n \<and> issues n \<le> 9) \<and> (\<not> hasAnomaly n \<longrightarrow> issues n = 0)"
proof -
  from assms obtain m r where s: "map p_status (processes (properties n)) = alternating m @ replicate r ''OK''"
    and b: "if hasAnomaly n then 1 \<le> m \<and> m \<le> 9 else m = 0"
    unfolding statusShape_def by blast
  from statuses_issues [OF s] b show ?thesis by (auto split: if_splits)
qed


lemma forPush_block:
  assumes "\<And>j k' v. j \<in> set js \<Longrightarrow> v \<in> set (fst (body j k')) \<Longrightarrow> key v = kf j"
    and "distinct (map kf js)" and "j \<in> set js"
  shows "\<exists>k'. filter (\<lambda>v. key v = kf j) (fst (forPush body js k)) = fst (body j k')"
  using assms
proof (induction js arbitrary: k)
  case Nil
  then show ?case by simp
next
  case (Cons i js)
  have keys_i: "\<And>k' v. v \<in> set (fst (body i k')) \<Longrightarrow> key v = kf i"
    using Cons.prems(1) by simp
  have keys_js: "\<And>j k' v. j \<in> set js \<Longrightarrow> v \<in> set (fst (body j k')) \<Longrightarrow> key v = kf j"
    using Cons.prems(1) by simp
  have rest_keys: "\<And>k' v. v \<in> set (fst (forPush body js k')) \<Longrightarrow> key v \<in> kf ` set js"
  proof -
    fix k' v assume "v \<in> set (fst (forPush body js k'))"
    from forPush_origin [OF this] keys_js show "key v \<in> kf ` set js" by blast
  qed
  show ?case
  proof (cases "kf j = kf i")
    case True
    have "kf i \<notin> kf ` set js" using Cons.prems(2) by simp
    with rest_keys have "\<forall>v\<in>set (fst (forPush body js (snd (body i k)))). key v \<noteq> kf i"
      by metis
    then have "filter (\<lambda>v. key v = kf i) (fst (forPush body js (snd (body i k)))) = []"
      by (simp add: filter_empty_conv)
    moreover have "filter (\<lambda>v. key v = kf i) (fst (body i k)) = fst (body i k)"
      using keys_i by (simp add: filter_id_conv)
    moreover have "j = i"
    proof (rule ccontr)
      assume "j \<noteq> i"
      with Cons.prems(3) have "j \<in> set js" by simp
      then have "kf j \<in> kf ` set js" by simp
      with True \<open>kf i \<notin> kf ` set js\<close> show False by simp
    qed
    ultimately show ?thesis using True
      by (simp only: forPush_Cons_fst filter_append) auto
  next
    case False
    then have "j \<in> set js" using Cons.prems(3) by auto
    have "\<exists>k'. filter (\<lambda>v. key v = kf j) (fst (forPush body js (snd (body i k)))) = fst (body j k')"
    proof (rule Cons.IH)
      show "\<And>j k' v. j \<in> set js \<Longrightarrow> v \<in> set (fst (body j k')) \<Longrightarrow> key v = kf j"
        by (rule keys_js)
      show "distinct (map kf js)" using Cons.prems(2) by simp
      show "j \<in> set js" by fact
    qed
    then obtain k' where "filter (\<lambda>v. key v = kf j) (fst (forPush body js (snd (body i k)))) = fst (body j k')"
      by blast
    moreover have "filter (\<lambda>v. key v = kf j) (fst (body i k)) = []"
      using keys_i False by (auto simp: filter_empty_conv)
    ultimately show ?thesis
      by (simp only: forPush_Cons_fst filter_append) auto
  qed
qed


lemma generateGroup_labels:
  assumes "n \<in> set (fst (generateGroup rnd dims date dayTotal entry k))"
  shows "n_tag n = fst entry" "n_date n = date"
  using generateGroup_origin [OF assms] by (auto simp: createNode_labels)

lemma generateDate_date:
  assumes "n \<in> set (fst (generateDate rnd dims date k))"
  shows "n_date n = date"
proof -
  from forPush_origin [OF assms [unfolded generateDate_def]]
  obtain entry k1 where "n \<in> set (fst (generateGroup rnd dims date (totalNodesForDate (rnd k)) entry k1))"
    by blast
  then show ?thesis by (rule generateGroup_labels)
qed


lemma generateNodes_date_block:
  assumes "distinct dates" "date \<in> set dates"
  shows "\<exists>k. filter (\<lambda>n. n_date n = date) (generateNodes rnd dims dates) = fst (generateDate rnd dims date k)"
  unfolding generateNodes_def
  using forPush_block [where body = "generateDate rnd dims" and key = n_date and kf = "\<lambda>d. d" and js = dates and j = date]
    generateDate_date assms
  by simp


lemma currentTotal_value: "currentTotal = 1422"
  by (simp add: currentTotal_def groups_def)

lemma totalNodesForDate_range:
  assumes "0 \<le> u" "u < 1"
  shows "1410 \<le> totalNodesForDate u \<and> totalNodesForDate u \<le> 1455"
  using randomIndex_less [OF assms, of 46] by (simp add: totalNodesForDate_def)


lemma scaledCount_round:
  "\<bar>real (scaledCount config dayTotal) - real (g_count config) * real dayTotal / 1422\<bar> \<le> 1 / 2"
proof -
  let ?v = "real (g_count config) * real dayTotal / 1422"
  have nonneg: "0 \<le> ?v" by simp
  then have "0 \<le> \<lfloor>?v + 1 / 2\<rfloor>" by simp
  then have "real (nat \<lfloor>?v + 1 / 2\<rfloor>) = of_int \<lfloor>?v + 1 / 2\<rfloor>" by simp
  then have eq: "real (scaledCount config dayTotal) = of_int \<lfloor>?v + 1 / 2\<rfloor>"
    by (simp add: scaledCount_def scaleFactor_def currentTotal_value jsRound_def)
  have "of_int \<lfloor>?v + 1 / 2\<rfloor> \<le> ?v + 1 / 2" "?v + 1 / 2 < of_int \<lfloor>?v + 1 / 2\<rfloor> + 1"
    by linarith+
  then show ?thesis unfolding eq by linarith
qed

lemma forPush_first:
  assumes "js = j # js'" "fst (body j k) = [v]"
  shows "fst (forPush body js k) = v # fst (forPush body js' (snd (body j k)))"
  by (simp only: assms forPush_Cons_fst append_Cons append_Nil)

lemma generateGroup_first:
  assumes "0 < scaledCount (snd entry) dayTotal"
  shows "\<exists>rest. fst (generateGroup rnd dims date dayTotal entry k) =
           fst (createNode rnd (fst entry) (snd entry) date
                  (mkSubclusters rnd dims (nat \<lceil>real (scaledCount (snd entry) dayTotal) / 15\<rceil>) k)
                  (nat \<lceil>real (scaledCount (snd entry) dayTotal) / 15\<rceil>)
                  (scaledCount (snd entry) dayTotal) 0
                  (k + 2 * nat \<lceil>real (scaledCount (snd entry) dayTotal) / 15\<rceil>)) # rest"
proof -
  have "[0..<scaledCount (snd entry) dayTotal] = 0 # [1..<scaledCount (snd entry) dayTotal]"
    using assms by (simp add: upt_conv_Cons)
  then show ?thesis
    unfolding generateGroup_def Let_def
    by (subst forPush_first) (auto simp: split_beta)
qed

lemma scaledCount_production:
  assumes "1410 \<le> dayTotal"
  shows "0 < scaledCount (snd (hd groups)) dayTotal"
proof -
  have "real (g_count (snd (hd groups))) * real dayTotal / 1422 \<ge> 568 * 1410 / 1422"
    using assms by (simp add: groups_def)
  with scaledCount_round [of "snd (hd groups)" dayTotal]
  have "0 < real (scaledCount (snd (hd groups)) dayTotal)" by linarith
  then show ?thesis by simp
qed

lemma generateDate_first:
  assumes "0 \<le> rnd k" "rnd k < 1"
  shows "\<exists>rest. fst (generateDate rnd dims date k) =
           fst (createNode rnd (fst (hd groups)) (snd (hd groups)) date
                  (mkSubclusters rnd dims (nat \<lceil>real (scaledCount (snd (hd groups)) (totalNodesForDate (rnd k))) / 15\<rceil>) (k + 1))
                  (nat \<lceil>real (scaledCount (snd (hd groups)) (totalNodesForDate (rnd k))) / 15\<rceil>)
                  (scaledCount (snd (hd groups)) (totalNodesForDate (rnd k))) 0
                  (k + 1 + 2 * nat \<lceil>real (scaledCount (snd (hd groups)) (totalNodesForDate (rnd k))) / 15\<rceil>)) # rest"
proof -
  have pos: "0 < scaledCount (snd (hd groups)) (totalNodesForDate (rnd k))"
    using totalNodesForDate_range [where u = "rnd k", OF assms] by (simp add: scaledCount_production)
  have g: "groups = hd groups # tl groups" by (simp add: groups_def)
  from generateGroup_first [OF pos, of rnd dims date "k + 1"] obtain rest where
    "fst (generateGroup rnd dims date (totalNodesForDate (rnd k)) (hd groups) (k + 1)) =
      fst (createNode rnd (fst (hd groups)) (snd (hd groups)) date
                  (mkSubclusters rnd dims (nat \<lceil>real (scaledCount (snd (hd groups)) (totalNodesForDate (rnd k))) / 15\<rceil>) (k + 1))
                  (nat \<lceil>real (scaledCount (snd (hd groups)) (totalNodesForDate (rnd k))) / 15\<rceil>)
                  (scaledCount (snd (hd groups)) (totalNodesForDate (rnd k))) 0
                  (k + 1 + 2 * nat \<lceil>real (scaledCount (snd (hd groups)) (totalNodesForDate (rnd k))) / 15\<rceil>)) # rest"
    by blast
  then show ?thesis
    unfolding generateDate_def
    by (subst g) (simp only: forPush_Cons_fst append_Cons, blast)
qed

lemma generateNodes_first:
  assumes "0 \<le> rnd 0" "rnd 0 < 1"
  shows "\<exists>rest. generateNodes rnd dims (date # dates) =
           fst (createNode rnd (fst (hd groups)) (snd (hd groups)) date
                  (mkSubclusters rnd dims (nat \<lceil>real (scaledCount (snd (hd groups)) (totalNodesForDate (rnd 0))) / 15\<rceil>) 1)
                  (nat \<lceil>real (scaledCount (snd (hd groups)) (totalNodesForDate (rnd 0))) / 15\<rceil>)
                  (scaledCount (snd (hd groups)) (totalNodesForDate (rnd 0))) 0
                  (1 + 2 * nat \<lceil>real (scaledCount (snd (hd groups)) (totalNodesForDate (rnd 0))) / 15\<rceil>)) # rest"
proof -
  from generateDate_first [where rnd = rnd and k = 0 and dims = dims and date = date, OF assms] obtain rest where
    "fst (generateDate rnd dims date 0) =
       fst (createNode rnd (fst (hd groups)) (snd (hd groups)) date
                  (mkSubclusters rnd dims (nat \<lceil>real (scaledCount (snd (hd groups)) (totalNodesForDate (rnd 0))) / 15\<rceil>) 1)
                  (nat \<lceil>real (scaledCount (snd (hd groups)) (totalNodesForDate (rnd 0))) / 15\<rceil>)
                  (scaledCount (snd (hd groups)) (totalNodesForDate (rnd 0))) 0
                  (1 + 2 * nat \<lceil>real (scaledCount (snd (hd groups)) (totalNodesForDate (rnd 0))) / 15\<rceil>)) # rest"
    by auto
  then show ?thesis
    unfolding generateNodes_def
    by (simp only: forPush_Cons_fst append_Cons) blast
qed

lemma scaledCount_production_1410: "scaledCount (snd (hd groups)) 1410 = 563"
  by (simp add: scaledCount_def scaleFactor_def currentTotal_value jsRound_def groups_def)

lemma totalNodesForDate_0: "totalNodesForDate 0 = 1410"
  by (simp add: totalNodesForDate_def randomIndex_def)

lemma generateNodes_first_zero:
  assumes "rnd 0 = 0"
  shows "hd (generateNodes rnd dims (date # dates)) =
           fst (createNode rnd ''Production'' (snd (hd groups)) date (mkSubclusters rnd dims 38 1) 38 563 0 77)"
    and "generateNodes rnd dims (date # dates) \<noteq> []"
proof -
  have c: "nat \<lceil>real 563 / 15\<rceil> = 38" by simp
  from generateNodes_first [of rnd dims date dates] assms
  obtain rest where "generateNodes rnd dims (date # dates) =
       fst (createNode rnd (fst (hd groups)) (snd (hd groups)) date (mkSubclusters rnd dims 38 1) 38 563 0 77) # rest"
    by (auto simp: totalNodesForDate_0 scaledCount_production_1410)
  then show "hd (generateNodes rnd dims (date # dates)) =
           fst (createNode rnd ''Production'' (snd (hd groups)) date (mkSubclusters rnd dims 38 1) 38 563 0 77)"
    and "generateNodes rnd dims (date # dates) \<noteq> []"
    by (simp_all add: groups_def)
qed

lemma fold_generateGroup_v1_alike:
  "\<exists>rest. list_all2 alike (fst (fold (generateGroup_v1 sim rnd dims) es st)) (fst st @ rest)"
proof (induction es arbitrary: st)
  case Nil
  have "list_all2 alike (fst st) (fst st @ [])" by (simp add: list_all2_refl alike_refl)
  then show ?case by (simp only: fold_simps id_apply) (rule exI)
next
  case (Cons e es)
  let ?st = "generateGroup_v1 sim rnd dims e st"
  let ?created = "fst (createGroupNodes_v1 rnd dims e (snd st))"
  from Cons.IH [of ?st] obtain rest where
    r: "list_all2 alike (fst (fold (generateGroup_v1 sim rnd dims) es ?st)) (fst ?st @ rest)"
    by blast
  have "list_all2 alike (fst ?st @ rest) ((fst st @ ?created) @ rest)"
    by (rule list_all2_appendI) (simp_all add: generateGroup_v1_alike list_all2_refl alike_refl)
  from list_all2_trans [OF _ r this]
  have "list_all2 alike (fst (fold (generateGroup_v1 sim rnd dims) es ?st)) (fst st @ (?created @ rest))"
    by (simp add: alike_trans)
  then show ?case by (simp only: fold_simps comp_apply) (rule exI)
qed

lemma createGroupNodes_v1_first_gen:
  assumes "0 < g_count (snd entry)"
  shows "\<exists>rest. fst (createGroupNodes_v1 rnd dims entry k) =
      fst (createNode_v1 rnd (fst entry) (snd entry)
             (mkSubclusters rnd dims (nat \<lceil>real (g_count (snd entry)) / 15\<rceil>) k)
             (nat \<lceil>real (g_count (snd entry)) / 15\<rceil>) 0
             (k + 2 * nat \<lceil>real (g_count (snd entry)) / 15\<rceil>)) # rest"
proof -
  have "[0..<g_count (snd entry)] = 0 # [1..<g_count (snd entry)]"
    using assms by (simp add: upt_conv_Cons)
  then show ?thesis
    unfolding createGroupNodes_v1_def Let_def
    by (subst forPush_first) (auto simp: split_beta)
qed

lemma production_entry:
  "fst (hd groups) = ''Production''" "g_count (snd (hd groups)) = 568"
  "nat \<lceil>real (g_count (snd (hd groups))) / 15\<rceil> = 38" "anomalyRate (snd (hd groups)) = 0.08"
  by (simp_all add: groups_def)

lemma createGroupNodes_v1_first:
  "\<exists>rest. fst (createGroupNodes_v1 rnd dims (hd groups) 0) =
      fst (createNode_v1 rnd ''Production'' (snd (hd groups)) (mkSubclusters rnd dims 38 0) 38 0 76) # rest"
  using createGroupNodes_v1_first_gen [of "hd groups" rnd dims 0]
  by (simp add: production_entry)

lemma generateNodes_v1_first:
  "\<exists>c rest. generateNodes_v1 sim rnd dims = c # rest \<and>
      alike c (fst (createNode_v1 rnd ''Production'' (snd (hd groups)) (mkSubclusters rnd dims 38 0) 38 0 76))"
proof -
  have g: "groups = hd groups # tl groups" by (simp add: groups_def)
  let ?st = "generateGroup_v1 sim rnd dims (hd groups) ([], 0)"
  from fold_generateGroup_v1_alike [of sim rnd dims "tl groups" ?st] obtain rest where
    r: "list_all2 alike (fst (fold (generateGroup_v1 sim rnd dims) (tl groups) ?st)) (fst ?st @ rest)"
    by blast
  from createGroupNodes_v1_first [of rnd dims] obtain rest' where
    c: "fst (createGroupNodes_v1 rnd dims (hd groups) 0) =
      fst (createNode_v1 rnd ''Production'' (snd (hd groups)) (mkSubclusters rnd dims 38 0) 38 0 76) # rest'"
    by blast
  have "list_all2 alike (fst ?st) (fst (createGroupNodes_v1 rnd dims (hd groups) 0))"
    using generateGroup_v1_alike [of sim rnd dims "hd groups" "([], 0)"] by simp
  then have "list_all2 alike (fst ?st @ rest) (fst (createGroupNodes_v1 rnd dims (hd groups) 0) @ rest)"
    by (rule list_all2_appendI) (simp add: list_all2_refl alike_refl)
  from list_all2_trans [OF _ r this]
  have "list_all2 alike (fst (fold (generateGroup_v1 sim rnd dims) (tl groups) ?st))
          (fst (createGroupNodes_v1 rnd dims (hd groups) 0) @ rest)"
    by (simp add: alike_trans)
  moreover have "generateNodes_v1 sim rnd dims = fst (fold (generateGroup_v1 sim rnd dims) (tl groups) ?st)"
    unfolding generateNodes_v1_def by (subst g) simp
  ultimately have "list_all2 alike (generateNodes_v1 sim rnd dims)
      (fst (createNode_v1 rnd ''Production'' (snd (hd groups)) (mkSubclusters rnd dims 38 0) 38 0 76) # (rest' @ rest))"
    by (simp add: c)
  then show ?thesis by (auto simp: list_all2_Cons2)
qed

lemma unit_rnd_zero: "unit_rng rnd_zero"
  by (simp add: unit_rng_def rnd_zero_def)

lemma alternating_nth: "j < m \<Longrightarrow> alternating m ! j = (if j mod 2 = 0 then ''Error'' else ''Warning'')"
  by (simp add: alternating_def)

lemma alternating_length: "length (alternating m) = m"
  by (simp add: alternating_def)

lemma alternating_first: "1 \<le> m \<Longrightarrow> \<exists>rest. alternating m = ''Error'' # rest"
  unfolding alternating_def by (cases m) (simp_all add: upt_conv_Cons del: upt_Suc)

lemma statuses_filter:
  assumes "map p_status ps = alternating m @ replicate r ''OK''"
  shows "map p_status (filter (\<lambda>p. p_status p \<noteq> ''OK'') ps) = alternating m"
proof -
  have "map p_status (filter (\<lambda>p. p_status p \<noteq> ''OK'') ps) = filter (\<lambda>s. s \<noteq> ''OK'') (map p_status ps)"
    by (simp add: filter_map comp_def)
  then show ?thesis by (simp add: assms filter_alternating)
qed

lemma statuses_find:
  assumes "map p_status ps = alternating m @ replicate r ''OK''" "1 \<le> m"
  shows "\<exists>p\<in>set ps. find (\<lambda>proc. p_status proc \<noteq> ''OK'') ps = Some p \<and> p_status p = ''Error''"
proof -
  from alternating_first [OF assms(2)] obtain rest where "alternating m = ''Error'' # rest" by blast
  with assms(1) obtain p ps' where "ps = p # ps'" "p_status p = ''Error''"
    by (cases ps) auto
  then show ?thesis by simp
qed

lemma statusShape_alternates:
  assumes "statusShape a" "hasAnomaly a"
  shows "alternates a"
proof -
  let ?ps = "processes (properties a)"
  from assms obtain m r where s: "map p_status ?ps = alternating m @ replicate r ''OK''"
    and m: "1 \<le> m"
    unfolding statusShape_def by auto
  have i: "issues a = m" by (rule statuses_issues [OF s])
  have f: "map p_status (filter (\<lambda>p. p_status p \<noteq> ''OK'') ?ps) = alternating m"
    by (rule statuses_filter [OF s])
  have "\<forall>j < issues a. p_status (filter (\<lambda>p. p_status p \<noteq> ''OK'') ?ps ! j) =
           (if j mod 2 = 0 then ''Error'' else ''Warning'')"
  proof (intro allI impI)
    fix j assume j: "j < issues a"
    then have "j < length (filter (\<lambda>p. p_status p \<noteq> ''OK'') ?ps)"
      using f i by (metis alternating_length length_map)
    then have "p_status (filter (\<lambda>p. p_status p \<noteq> ''OK'') ?ps ! j) =
               map p_status (filter (\<lambda>p. p_status p \<noteq> ''OK'') ?ps) ! j"
      by simp
    also have "\<dots> = (if j mod 2 = 0 then ''Error'' else ''Warning'')"
      using j i by (simp only: f alternating_nth)
    finally show "p_status (filter (\<lambda>p. p_status p \<noteq> ''OK'') ?ps ! j) =
           (if j mod 2 = 0 then ''Error'' else ''Warning'')" .
  qed
  moreover from statuses_find [OF s m] obtain p where
    p: "p \<in> set ?ps" "find (\<lambda>proc. p_status proc \<noteq> ''OK'') ?ps = Some p" "p_status p = ''Error''"
    by blast
  then have "\<forall>s. expandedProcess (expandFirstSuspicious (s \<lparr> selectedNode := Some a \<rparr>)) = Some (p_id p)"
    using assms(2) by (simp add: expandFirstSuspicious_def)
  ultimately show ?thesis unfolding alternates_def using p by blast
qed

lemma first_nodes_zero:
  "hd (generateNodes rnd_zero viewport [''2024-05-01'']) \<in> set (generateNodes rnd_zero viewport [''2024-05-01''])"
  "hasAnomaly (hd (generateNodes rnd_zero viewport [''2024-05-01'']))"
  "hd (generateNodes_v1 sim_still rnd_zero viewport) \<in> set (generateNodes_v1 sim_still rnd_zero viewport)"
  "hasAnomaly (hd (generateNodes_v1 sim_still rnd_zero viewport))"
proof -
  let ?G = "generateNodes rnd_zero viewport [''2024-05-01'']"
  let ?H = "generateNodes_v1 sim_still rnd_zero viewport"
  have z: "rnd_zero 0 = 0" by (simp add: rnd_zero_def)
  show "hd ?G \<in> set ?G"
    using generateNodes_first_zero(2) [where rnd = rnd_zero and dims = viewport, OF z] by simp
  show "hasAnomaly (hd ?G)"
    by (simp add: generateNodes_first_zero(1) [where rnd = rnd_zero, OF z] createNode_hasAnomaly production_entry)
      (simp add: rnd_zero_def)
  from generateNodes_v1_first [of sim_still rnd_zero viewport] obtain c rest where
    h: "?H = c # rest" and
    a: "alike c (fst (createNode_v1 rnd_zero ''Production'' (snd (hd groups)) (mkSubclusters rnd_zero viewport 38 0) 38 0 76))"
    by blast
  show "hd ?H \<in> set ?H" using h by simp
  have "hasAnomaly c" using a
    by (simp add: alike_def createNode_v1_hasAnomaly production_entry) (simp add: rnd_zero_def)
  then show "hasAnomaly (hd ?H)" using h by simp
qed



lemma upt_split_max: "[0..<ppc] @ [ppc..<pc] = [0..<max pc ppc]"
proof (cases "ppc \<le> pc")
  case True
  then show ?thesis using upt_add_eq_append [of 0 ppc "pc - ppc"] by (simp add: max_def)
next
  case False
  then show ?thesis by (simp add: max_def)
qed

lemma createProcesses_ids_max:
  "map p_id (fst (createProcesses rnd tag i ppc pc k)) =
     map (\<lambda>j. ''proc-'' @ tag @ ''-'' @ string_of_nat i @ ''-'' @ string_of_nat j)
       [0..<length (fst (createProcesses rnd tag i ppc pc k))]"
  by (simp only: createProcesses_ids upt_split_max createProcesses_length)

lemma createNode_idsFollowScheme:
  "idsFollowScheme (fst (createNode rnd tag config date scs sc gs i k))"
  unfolding idsFollowScheme_def
proof (rule exI [of _ i], rule conjI)
  show "pr_name (properties (fst (createNode rnd tag config date scs sc gs i k))) =
        n_tag (fst (createNode rnd tag config date scs sc gs i k)) @ '' Asset '' @ string_of_nat i"
    by (simp only: createNode_labels)
  show "map p_id (processes (properties (fst (createNode rnd tag config date scs sc gs i k)))) =
        map (\<lambda>j. ''proc-'' @ n_tag (fst (createNode rnd tag config date scs sc gs i k)) @ ''-'' @
                  string_of_nat i @ ''-'' @ string_of_nat j)
          [0..<length (processes (properties (fst (createNode rnd tag config date scs sc gs i k))))]"
    by (simp only: createNode_labels createNode_processes) (rule createProcesses_ids_max)
qed

lemma createNode_v1_labels:
  "n_tag (fst (createNode_v1 rnd tag config scs sc i k)) = tag"
  "pr_name (properties (fst (createNode_v1 rnd tag config scs sc i k))) = tag @ '' Asset '' @ string_of_nat i"
  unfolding createNode_v1_def Let_def split_beta by simp_all

lemma createNode_v1_idsFollowScheme:
  "idsFollowScheme (fst (createNode_v1 rnd tag config scs sc i k))"
  unfolding idsFollowScheme_def
proof (rule exI [of _ i], rule conjI)
  show "pr_name (properties (fst (createNode_v1 rnd tag config scs sc i k))) =
        n_tag (fst (createNode_v1 rnd tag config scs sc i k)) @ '' Asset '' @ string_of_nat i"
    by (simp only: createNode_v1_labels)
  show "map p_id (processes (properties (fst (createNode_v1 rnd tag config scs sc i k)))) =
        map (\<lambda>j. ''proc-'' @ n_tag (fst (createNode_v1 rnd tag config scs sc i k)) @ ''-'' @
                  string_of_nat i @ ''-'' @ string_of_nat j)
          [0..<length (processes (properties (fst (createNode_v1 rnd tag config scs sc i k))))]"
    by (simp only: createNode_v1_labels createNode_v1_processes) (rule createProcesses_ids_max)
qed

lemma alike_idsFollowScheme:
  assumes "alike n c" "idsFollowScheme c"
  shows "idsFollowScheme n"
proof -
  from assms(1) have e: "n_tag n = n_tag c" "pr_name (properties n) = pr_name (properties c)"
    "map p_id (processes (properties n)) = map p_id (processes (properties c))"
    by (simp_all add: alike_def)
  from e(3) have "length (processes (properties n)) = length (processes (properties c))"
    by (rule map_eq_imp_length_eq)
  with assms(2) e show ?thesis by (simp add: idsFollowScheme_def)
qed

lemma idsFollowScheme_distinct:
  assumes "idsFollowScheme a"
  shows "distinct (map p_id (processes (properties a)))"
proof -
  from assms obtain i where
    m: "map p_id (processes (properties a)) =
            map (\<lambda>j. ''proc-'' @ n_tag a @ ''-'' @ string_of_nat i @ ''-'' @ string_of_nat j)
              [0..<length (processes (properties a))]"
    unfolding idsFollowScheme_def by blast
  have "inj (\<lambda>j. ''proc-'' @ n_tag a @ ''-'' @ string_of_nat i @ ''-'' @ string_of_nat j)"
    by (rule injI) (simp add: string_of_nat_inj)
  then have "distinct (map (\<lambda>j. ''proc-'' @ n_tag a @ ''-'' @ string_of_nat i @ ''-'' @ string_of_nat j)
              [0..<length (processes (properties a))])"
    by (simp only: distinct_map distinct_upt) (meson inj_on_subset subset_UNIV)
  then show ?thesis by (simp only: m)
qed

lemma string_of_nat_0: "string_of_nat 0 = ''0''"
  by (simp add: string_of_nat.simps digit_char_def)

lemma createNode_first_process:
  "\<exists>p\<in>set (processes (properties (fst (createNode rnd tag config date scs sc gs i k)))).
      p_id p = ''proc-'' @ tag @ ''-'' @ string_of_nat i @ ''-'' @ string_of_nat 0"
proof -
  let ?ps = "processes (properties (fst (createNode rnd tag config date scs sc gs i k)))"
  let ?f = "\<lambda>j. ''proc-'' @ tag @ ''-'' @ string_of_nat i @ ''-'' @ string_of_nat j"
  have "0 < length ?ps"
    by (simp only: createNode_processes createProcesses_length)
  then have "0 \<in> set [0..<length ?ps]" by simp
  then have "?f 0 \<in> set (map ?f [0..<length ?ps])" by (simp only: set_map) (rule imageI)
  moreover have "map p_id ?ps = map ?f [0..<length ?ps]"
    by (simp only: createNode_processes createProcesses_ids_max)
  ultimately have "?f 0 \<in> p_id ` set ?ps" by (simp only: set_map [symmetric])
  then show ?thesis by auto
qed

lemma date_first_asset:
  assumes "unit_rng rnd" "distinct dates" "d \<in> set dates"
  shows "\<exists>a\<in>set (generateNodes rnd dims dates).
           n_date a = d \<and> n_tag a = ''Production'' \<and> pr_name (properties a) = ''Production Asset 0'' \<and>
           (\<exists>p\<in>set (processes (properties a)). p_id p = ''proc-Production-0-0'')"
proof -
  from generateNodes_date_block [OF assms(2,3), of rnd dims] obtain k where
    b: "filter (\<lambda>n. n_date n = d) (generateNodes rnd dims dates) = fst (generateDate rnd dims d k)"
    by blast
  have "0 \<le> rnd k" "rnd k < 1" using assms(1) by (simp_all add: unit_rng_def)
  from generateDate_first [where rnd = rnd and k = k and dims = dims and date = d, OF this]
  obtain c rest where c: "fst (generateDate rnd dims d k) = c # rest"
    and l: "n_date c = d" "n_tag c = ''Production''" "pr_name (properties c) = ''Production Asset 0''"
      "\<exists>p\<in>set (processes (properties c)). p_id p = ''proc-Production-0-0''"
    using createNode_first_process [of rnd "''Production''" _ d _ _ _ 0]
    by (auto simp: createNode_labels production_entry string_of_nat_0)
  have "c \<in> set (filter (\<lambda>n. n_date n = d) (generateNodes rnd dims dates))"
    by (simp only: b c) simp
  then have "c \<in> set (generateNodes rnd dims dates)" by simp
  with l show ?thesis by blast
qed

lemma mkSubclusters_nth:
  assumes "m < sc"
  shows "mkSubclusters rnd dims sc k ! m =
     \<lparr> centerX = rnd (k + 2 * m) * (width dims * 0.6) + width dims * 0.2,
       centerY = rnd (k + 2 * m + 1) * (height dims * 0.6) + height dims * 0.2,
       sc_radius = min (width dims) (height dims) * 0.15 \<rparr>"
  using assms by (simp add: mkSubclusters_def)

lemma createNode_v1_position:
  "(n_x (fst (createNode_v1 rnd tag config scs sc i k)), n_y (fst (createNode_v1 rnd tag config scs sc i k))) =
     placeNode (scs ! (i mod sc)) (rnd (k + 1) < anomalyRate config) i (g_count config) sc
       (rnd (snd (createProcesses rnd tag i
            (if rnd (k + 1) < anomalyRate config then randomIndex (rnd (k + 2)) 9 + 1 else 0)
            (randomIndex (rnd k) 100 + 1)
            (if rnd (k + 1) < anomalyRate config then k + 3 else k + 2))))
       (rnd (snd (createProcesses rnd tag i
            (if rnd (k + 1) < anomalyRate config then randomIndex (rnd (k + 2)) 9 + 1 else 0)
            (randomIndex (rnd k) 100 + 1)
            (if rnd (k + 1) < anomalyRate config then k + 3 else k + 2)) + 1))"
  unfolding createNode_v1_def Let_def split_beta by simp

lemma most_issues_foldl:
  fixes key :: "'a \<Rightarrow> nat"
  defines "step \<equiv> (\<lambda>best x. if key x > key best then x else best)"
  shows "(foldl step a xs = a \<and> (\<forall>x\<in>set xs. key x \<le> key a)) \<or>
         (\<exists>i<length xs. foldl step a xs = xs ! i \<and> key a < key (xs ! i) \<and>
             (\<forall>x\<in>set xs. key x \<le> key (xs ! i)) \<and> (\<forall>j<i. key (xs ! j) < key (xs ! i)))"
proof (induction xs rule: rev_induct)
  case Nil
  show ?case by simp
next
  case (snoc x xs)
  let ?r = "foldl step a xs"
  have f: "foldl step a (xs @ [x]) = (if key x > key ?r then x else ?r)"
    by (simp add: step_def)
  from snoc.IH show ?case
  proof
    assume h: "?r = a \<and> (\<forall>y\<in>set xs. key y \<le> key a)"
    show ?thesis
    proof (cases "key x > key a")
      case True
      then have "foldl step a (xs @ [x]) = (xs @ [x]) ! length xs" using h f by simp
      moreover have "\<forall>y\<in>set (xs @ [x]). key y \<le> key ((xs @ [x]) ! length xs)"
        using h True by auto
      moreover have "\<forall>j<length xs. key ((xs @ [x]) ! j) < key ((xs @ [x]) ! length xs)"
        using h True by (auto simp: nth_append intro: le_less_trans)
      ultimately show ?thesis using True by (intro disjI2 exI [of _ "length xs"]) simp
    next
      case False
      then show ?thesis using h f by auto
    qed
  next
    assume "\<exists>i<length xs. ?r = xs ! i \<and> key a < key (xs ! i) \<and>
             (\<forall>y\<in>set xs. key y \<le> key (xs ! i)) \<and> (\<forall>j<i. key (xs ! j) < key (xs ! i))"
    then obtain i where i: "i < length xs" "?r = xs ! i" "key a < key (xs ! i)"
      "\<forall>y\<in>set xs. key y \<le> key (xs ! i)" "\<forall>j<i. key (xs ! j) < key (xs ! i)"
      by blast
    show ?thesis
    proof (cases "key x > key (xs ! i)")
      case True
      then have "foldl step a (xs @ [x]) = (xs @ [x]) ! length xs" using i f by simp
      moreover have "\<forall>y\<in>set (xs @ [x]). key y \<le> key ((xs @ [x]) ! length xs)"
        using i(4) True by (auto intro: order_trans less_imp_le)
      moreover have "\<forall>j<length xs. key ((xs @ [x]) ! j) < key ((xs @ [x]) ! length xs)"
        using i(4) True by (auto simp: nth_append intro: le_less_trans)
      moreover have "key a < key ((xs @ [x]) ! length xs)" using i(3) True by simp
      ultimately show ?thesis by (intro disjI2 exI [of _ "length xs"]) simp
    next
      case False
      then have "foldl step a (xs @ [x]) = (xs @ [x]) ! i" using i f by (simp add: nth_append)
      moreover have "\<forall>y\<in>set (xs @ [x]). key y \<le> key ((xs @ [x]) ! i)"
        using i False by (auto simp: nth_append)
      moreover have "\<forall>j<i. key ((xs @ [x]) ! j) < key ((xs @ [x]) ! i)"
        using i by (auto simp: nth_append)
      moreover have "key a < key ((xs @ [x]) ! i)" using i by (simp add: nth_append)
      ultimately show ?thesis using i(1) by (intro disjI2 exI [of _ i]) simp
    qed
  qed
qed

lemma nodeWithMostIssues_first_max:
  assumes "d \<noteq> []"
  shows "\<exists>i<length d. nodeWithMostIssues d = Some (d ! i) \<and>
           (\<forall>m\<in>set d. issues m \<le> issues (d ! i)) \<and> (\<forall>j<i. issues (d ! j) < issues (d ! i))"
proof -
  from assms obtain d0 rest where d: "d = d0 # rest" by (cases d) auto
  let ?step = "\<lambda>best x. if issues x > issues best then x else best"
  have r: "nodeWithMostIssues d = Some (foldl ?step d0 rest)"
    by (simp add: nodeWithMostIssues_def d)
  from most_issues_foldl [of issues d0 rest] show ?thesis
  proof
    assume "foldl ?step d0 rest = d0 \<and> (\<forall>x\<in>set rest. issues x \<le> issues d0)"
    then show ?thesis using r d by (intro exI [of _ 0]) simp
  next
    assume "\<exists>i<length rest. foldl ?step d0 rest = rest ! i \<and> issues d0 < issues (rest ! i) \<and>
             (\<forall>x\<in>set rest. issues x \<le> issues (rest ! i)) \<and> (\<forall>j<i. issues (rest ! j) < issues (rest ! i))"
    then obtain i where i: "i < length rest" "foldl ?step d0 rest = rest ! i" "issues d0 < issues (rest ! i)"
      "\<forall>x\<in>set rest. issues x \<le> issues (rest ! i)" "\<forall>j<i. issues (rest ! j) < issues (rest ! i)"
      by blast
    have "\<forall>j<Suc i. issues (d ! j) < issues (d ! Suc i)"
    proof (intro allI impI)
      fix j assume "j < Suc i"
      then show "issues (d ! j) < issues (d ! Suc i)"
        using i(3,5) d by (cases j) simp_all
    qed
    moreover have "\<forall>m\<in>set d. issues m \<le> issues (d ! Suc i)"
      using i(3,4) d by auto
    ultimately show ?thesis using r i(1,2) d by (intro exI [of _ "Suc i"]) simp
  qed
qed

lemma selectedNode_expandFirstSuspicious:
  "selectedNode (expandFirstSuspicious s) = selectedNode s"
  by (simp add: expandFirstSuspicious_def split: option.splits)

lemma selectedNode_dispatch: "selectedNode (dispatch ev s) = selectedNode (handleEvent ev s)"
  by (simp add: dispatch_def Let_def selectedNode_expandFirstSuspicious)

lemma sample_cell_issues:
  "issues (sample_cell ! 0) = 1" "issues (sample_cell ! 1) = 2" "issues (sample_cell ! 2) = 2"
  "length sample_cell = 3" "sample_cell \<noteq> []"
  by (simp_all add: sample_cell_def sample_node_def sample_process_def issues_def)

lemma mkGraphNode_id: "map gn_id (fst (mkGraphNode rnd i k)) = [''node-'' @ string_of_nat i]"
  by (simp add: mkGraphNode_def Let_def split_beta)

lemma graphNodes_ids:
  "map gn_id (fst (forPush (mkGraphNode rnd) js k)) = map (\<lambda>i. ''node-'' @ string_of_nat i) js"
proof (induction js arbitrary: k)
  case Nil
  show ?case by simp
next
  case (Cons j js)
  show ?case by (simp only: forPush_Cons_fst map_append mkGraphNode_id Cons.IH list.map append_Cons append_Nil)
qed

lemma graphNodes_shape:
  assumes "gns = fst (forPush (mkGraphNode rnd) [0..<n] k)"
  shows "length gns = n" "\<And>i. i < n \<Longrightarrow> gn_id (gns ! i) = ''node-'' @ string_of_nat i"
    "distinct (map gn_id gns)"
proof -
  have m: "map gn_id gns = map (\<lambda>i. ''node-'' @ string_of_nat i) [0..<n]"
    by (simp only: assms graphNodes_ids)
  from m have "length (map gn_id gns) = length (map (\<lambda>i. ''node-'' @ string_of_nat i) [0..<n])"
    by (rule arg_cong)
  then show l: "length gns = n" by simp
  show "\<And>i. i < n \<Longrightarrow> gn_id (gns ! i) = ''node-'' @ string_of_nat i"
  proof -
    fix i assume i: "i < n"
    then have "gn_id (gns ! i) = map gn_id gns ! i" using l by simp
    also have "\<dots> = ''node-'' @ string_of_nat i" using i by (simp only: m) simp
    finally show "gn_id (gns ! i) = ''node-'' @ string_of_nat i" .
  qed
  have "inj (\<lambda>i. ''node-'' @ string_of_nat i)" by (rule injI) (simp add: string_of_nat_inj)
  then have "distinct (map (\<lambda>i. ''node-'' @ string_of_nat i) [0..<n])"
    by (simp only: distinct_map distinct_upt) (meson inj_on_subset subset_UNIV)
  then show "distinct (map gn_id gns)" by (simp only: m)
qed

lemma renderProcessGraph_mounted:
  "renderProcessGraph rnd processId True k =
     Some (fst (forPush (mkGraphNode rnd) [0..<randomIndex (rnd k) 6 + 15] (k + 1)),
           fst (forPush (linksFrom rnd (fst (forPush (mkGraphNode rnd) [0..<randomIndex (rnd k) 6 + 15] (k + 1))))
                  [0..<length (fst (forPush (mkGraphNode rnd) [0..<randomIndex (rnd k) 6 + 15] (k + 1)))]
                  (snd (forPush (mkGraphNode rnd) [0..<randomIndex (rnd k) 6 + 15] (k + 1)))))"
  unfolding renderProcessGraph_def Let_def split_beta by simp

lemma pushIntoBin_keys:
  "map fst (pushIntoBin c x bs) = (if c \<in> fst ` set bs then map fst bs else map fst bs @ [c])"
  by (induction bs) auto

lemma pushIntoBin_distinct:
  "distinct (map fst bs) \<Longrightarrow> distinct (map fst (pushIntoBin c x bs))"
  by (simp add: pushIntoBin_keys)

lemma pushIntoBin_map_of:
  "distinct (map fst bs) \<Longrightarrow>
   map_of (pushIntoBin c x bs) = (map_of bs)(c \<mapsto> (case map_of bs c of None \<Rightarrow> [x] | Some b \<Rightarrow> b @ [x]))"
proof (induction bs)
  case Nil
  then show ?case by simp
next
  case (Cons b bs)
  show ?case
  proof (cases "fst b = c")
    case True
    then show ?thesis by (cases b) auto
  next
    case False
    then show ?thesis using Cons by (cases b) (auto simp: fun_upd_twist)
  qed
qed

lemma pushIntoBin_total:
  "length (concat (map snd (pushIntoBin c x bs))) = Suc (length (concat (map snd bs)))"
  by (induction bs) auto

lemma binning_invariant:
  fixes cellp :: "Node \<Rightarrow> 'c"
  defines "B \<equiv> \<lambda>xs. fold (\<lambda>point bins. pushIntoBin (cellp point) point bins) xs []"
  shows "distinct (map fst (B xs)) \<and>
         (\<forall>c. map_of (B xs) c =
                (if c \<in> cellp ` set xs then Some (filter (\<lambda>p. cellp p = c) xs) else None)) \<and>
         length (concat (map snd (B xs))) = length xs"
proof (induction xs rule: rev_induct)
  case Nil
  show ?case by (simp add: B_def)
next
  case (snoc x xs)
  have step: "B (xs @ [x]) = pushIntoBin (cellp x) x (B xs)" by (simp add: B_def)
  from snoc.IH have d: "distinct (map fst (B xs))"
    and m: "\<And>c. map_of (B xs) c =
                (if c \<in> cellp ` set xs then Some (filter (\<lambda>p. cellp p = c) xs) else None)"
    and l: "length (concat (map snd (B xs))) = length xs"
    by simp_all
  have "distinct (map fst (B (xs @ [x])))"
    unfolding step by (rule pushIntoBin_distinct [OF d])
  moreover have "\<forall>c. map_of (B (xs @ [x])) c =
                (if c \<in> cellp ` set (xs @ [x]) then Some (filter (\<lambda>p. cellp p = c) (xs @ [x])) else None)"
  proof
    fix c
    have none: "cellp x \<notin> cellp ` set xs \<Longrightarrow> filter (\<lambda>p. cellp p = cellp x) xs = []"
      by (simp add: filter_empty_conv) (metis imageI)
    show "map_of (B (xs @ [x])) c =
                (if c \<in> cellp ` set (xs @ [x]) then Some (filter (\<lambda>p. cellp p = c) (xs @ [x])) else None)"
      unfolding step pushIntoBin_map_of [OF d]
      using none by (cases "c = cellp x") (auto simp: m)
  qed
  moreover have "length (concat (map snd (B (xs @ [x])))) = length (xs @ [x])"
    unfolding step by (simp add: pushIntoBin_total l)
  ultimately show ?case by blast
qed

lemma hexbin_facts:
  fixes cellOf :: "real \<times> real \<Rightarrow> 'c"
  shows "\<forall>b\<in>set (hexbin cellOf pts). b \<noteq> [] \<and> set b \<subseteq> set pts"
    and "\<forall>a\<in>set pts. \<exists>!i. i < length (hexbin cellOf pts) \<and> a \<in> set (hexbin cellOf pts ! i)"
    and "length (concat (hexbin cellOf pts)) = length pts"
proof -
  define cellp :: "Node \<Rightarrow> 'c" where "cellp = (\<lambda>p. cellOf (n_x p, n_y p))"
  define B where "B = fold (\<lambda>point bins. pushIntoBin (cellp point) point bins) pts []"
  have h: "hexbin cellOf pts = map snd B" by (simp add: hexbin_def B_def cellp_def)
  from binning_invariant [of cellp pts] have d: "distinct (map fst B)"
    and m: "\<And>c. map_of B c = (if c \<in> cellp ` set pts then Some (filter (\<lambda>p. cellp p = c) pts) else None)"
    and l: "length (concat (map snd B)) = length pts"
    unfolding B_def by simp_all
  have member: "\<And>c b. (c, b) \<in> set B \<Longrightarrow> c \<in> cellp ` set pts \<and> b = filter (\<lambda>p. cellp p = c) pts"
  proof -
    fix c b assume "(c, b) \<in> set B"
    then have "map_of B c = Some b" using d by simp
    then show "c \<in> cellp ` set pts \<and> b = filter (\<lambda>p. cellp p = c) pts"
      by (simp add: m split: if_splits)
  qed
  show "\<forall>b\<in>set (hexbin cellOf pts). b \<noteq> [] \<and> set b \<subseteq> set pts"
  proof
    fix b assume "b \<in> set (hexbin cellOf pts)"
    then obtain c where "(c, b) \<in> set B" unfolding h by auto
    from member [OF this] show "b \<noteq> [] \<and> set b \<subseteq> set pts"
      by (auto simp: filter_empty_conv)
  qed
  show "\<forall>a\<in>set pts. \<exists>!i. i < length (hexbin cellOf pts) \<and> a \<in> set (hexbin cellOf pts ! i)"
  proof
    fix a assume a: "a \<in> set pts"
    then have "map_of B (cellp a) = Some (filter (\<lambda>p. cellp p = cellp a) pts)" by (simp add: m)
    then have "(cellp a, filter (\<lambda>p. cellp p = cellp a) pts) \<in> set B" by (rule map_of_SomeD)
    then obtain i where i: "i < length B" "B ! i = (cellp a, filter (\<lambda>p. cellp p = cellp a) pts)"
      by (auto simp: in_set_conv_nth)
    show "\<exists>!i. i < length (hexbin cellOf pts) \<and> a \<in> set (hexbin cellOf pts ! i)"
    proof (rule ex1I [of _ i])
      show "i < length (hexbin cellOf pts) \<and> a \<in> set (hexbin cellOf pts ! i)"
        using i a by (simp add: h)
    next
      fix j assume j: "j < length (hexbin cellOf pts) \<and> a \<in> set (hexbin cellOf pts ! j)"
      then have jl: "j < length B" by (simp add: h)
      from j jl have aj: "a \<in> set (snd (B ! j))" by (simp add: h)
      have "(fst (B ! j), snd (B ! j)) \<in> set B" using jl by simp
      from member [OF this] aj have "fst (B ! j) = cellp a" by auto
      then have "map fst B ! j = map fst B ! i" using i jl by simp
      moreover have "j < length (map fst B)" "i < length (map fst B)" using jl i(1) by simp_all
      ultimately show "j = i" using d by (simp only: nth_eq_iff_index_eq)
    qed
  qed
  show "length (concat (hexbin cellOf pts)) = length pts" by (simp only: h l)
qed

lemma idle_state_filtered:
  "filteredData idle_state = sample_cell"
  "filteredData (idle_state \<lparr> currentDate := ''2024-06-01'' \<rparr>) = []"
  by (simp_all add: idle_state_def filteredData_def sample_cell_def sample_node_def)

lemma idle_state_bins: "bins grid_cell idle_state = [sample_cell]"
  by (simp add: bins_def idle_state_filtered hexbin_def)
    (simp add: sample_cell_def sample_node_def grid_cell_def)

subsection \<open>The update pass of the earlier revision leaves an unmatched position alone\<close>

lemma updateNode_length: "length (updateNode dims node ns) = length ns"
  using updateNode_alike [of dims node ns] by (rule list_all2_lengthD)

lemma updateNode_keeps:
  assumes "p < length ns"
    and "\<not> (hasAnomaly (ns ! p) = s_hasAnomaly node \<and> n_x (ns ! p) = s_x node \<and> n_y (ns ! p) = s_y node)"
  shows "updateNode dims node ns ! p = ns ! p"
proof (cases "findIndex (\<lambda>n. hasAnomaly n = s_hasAnomaly node \<and> n_x n = s_x node \<and> n_y n = s_y node) ns")
  case None
  then show ?thesis by (simp add: updateNode_def)
next
  case (Some j)
  from findIndex_Some [OF Some] assms(2) have "j \<noteq> p" by blast
  then show ?thesis using Some by (simp add: updateNode_def Let_def)
qed

lemma updatePositions_keeps:
  assumes "p < length ns"
    and "\<forall>node\<in>set sims. (s_x node, s_y node) \<noteq> (n_x (ns ! p), n_y (ns ! p))"
  shows "updatePositions dims sims ns ! p = ns ! p"
  using assms unfolding updatePositions_def
proof (induction sims arbitrary: ns)
  case Nil
  show ?case by simp
next
  case (Cons s sims)
  have k: "updateNode dims s ns ! p = ns ! p"
    by (rule updateNode_keeps [OF Cons.prems(1)]) (use Cons.prems(2) in auto)
  have "fold (updateNode dims) sims (updateNode dims s ns) ! p = updateNode dims s ns ! p"
    by (rule Cons.IH) (use Cons.prems k in \<open>simp_all add: updateNode_length\<close>)
  then show ?case by (simp add: k)
qed

lemma runSimulation_avoids:
  assumes "\<forall>allNodes j. sim dims allNodes j \<noteq> pt"
  shows "\<forall>node\<in>set (runSimulation sim dims allNodes). (s_x node, s_y node) \<noteq> pt"
  using assms by (auto simp: runSimulation_def)

lemma declutter_keeps:
  assumes "p < length ns" "\<forall>allNodes j. sim dims allNodes j \<noteq> (n_x (ns ! p), n_y (ns ! p))"
  shows "declutter sim dims created ns ! p = ns ! p"
proof -
  let ?allNodes = "map (\<lambda>n. \<lparr> s_x = n_x n, s_y = n_y n, s_hasAnomaly = hasAnomaly n \<rparr>) created"
  have "\<forall>node\<in>set (runSimulation sim dims ?allNodes). (s_x node, s_y node) \<noteq> (n_x (ns ! p), n_y (ns ! p))"
    by (rule runSimulation_avoids [where sim = sim and dims = dims]) (rule assms(2))
  from updatePositions_keeps [OF assms(1) this] show ?thesis
    by (simp add: declutter_def Let_def)
qed

lemma generateGroup_v1_places:
  "map (\<lambda>n. (n_x n, n_y n, hasAnomaly n)) (fst (generateGroup_v1 sim rnd dims entry st)) =
   map (\<lambda>n. (n_x n, n_y n, hasAnomaly n))
     (declutter sim dims (fst (createGroupNodes_v1 rnd dims entry (snd st)))
        (fst st @ fst (createGroupNodes_v1 rnd dims entry (snd st))))"
proof -
  let ?created = "fst (createGroupNodes_v1 rnd dims entry (snd st))"
  let ?moved = "declutter sim dims ?created (fst st @ ?created)"
  let ?m = "length (fst st)"
  have "map (\<lambda>n. (n_x n, n_y n, hasAnomaly n)) (fst (generateGroup_v1 sim rnd dims entry st)) =
        map (\<lambda>n. (n_x n, n_y n, hasAnomaly n)) (take ?m ?moved) @
        map (\<lambda>n. (n_x n, n_y n, hasAnomaly n)) (drop ?m ?moved)"
    by (simp only: generateGroup_v1_fst map_append connectProcesses_def Let_def fst_conv assignConnections_place)
  also have "\<dots> = map (\<lambda>n. (n_x n, n_y n, hasAnomaly n)) ?moved"
    by (simp only: map_append [symmetric] append_take_drop_id)
  finally show ?thesis .
qed

lemma declutter_length: "length (declutter sim dims created ns) = length ns"
  using declutter_alike [of sim dims created ns] by (rule list_all2_lengthD)

lemma generateGroup_v1_head:
  assumes "fst st @ fst (createGroupNodes_v1 rnd dims entry (snd st)) = c # rest"
    and "\<forall>allNodes j. sim dims allNodes j \<noteq> (n_x c, n_y c)"
  shows "\<exists>c' rest'. fst (generateGroup_v1 sim rnd dims entry st) = c' # rest' \<and>
           n_x c' = n_x c \<and> n_y c' = n_y c \<and> hasAnomaly c' = hasAnomaly c"
proof -
  let ?created = "fst (createGroupNodes_v1 rnd dims entry (snd st))"
  let ?moved = "declutter sim dims ?created (fst st @ ?created)"
  have k: "?moved ! 0 = c"
    using declutter_keeps [of 0 "fst st @ ?created" sim dims ?created] assms by simp
  have l: "length ?moved = Suc (length rest)"
    by (simp add: declutter_length assms(1))
  then obtain m ms where m: "?moved = m # ms" by (cases ?moved) simp_all
  with k have "m = c" by simp
  with m generateGroup_v1_places [of sim rnd dims entry st]
  have "map (\<lambda>n. (n_x n, n_y n, hasAnomaly n)) (fst (generateGroup_v1 sim rnd dims entry st)) =
        (n_x c, n_y c, hasAnomaly c) # map (\<lambda>n. (n_x n, n_y n, hasAnomaly n)) ms"
    by simp
  then show ?thesis by (auto simp: map_eq_Cons_conv)
qed

lemma fold_generateGroup_v1_head:
  assumes "\<forall>allNodes j. sim dims allNodes j \<noteq> (x, y)"
  shows "\<exists>c rest. fst st = c # rest \<and> n_x c = x \<and> n_y c = y \<and> hasAnomaly c = a \<Longrightarrow>
         \<exists>c rest. fst (fold (generateGroup_v1 sim rnd dims) es st) = c # rest \<and>
            n_x c = x \<and> n_y c = y \<and> hasAnomaly c = a"
proof (induction es arbitrary: st)
  case Nil
  then show ?case by simp
next
  case (Cons e es)
  from Cons.prems obtain c rest where c: "fst st = c # rest" "n_x c = x" "n_y c = y" "hasAnomaly c = a"
    by blast
  have "fst st @ fst (createGroupNodes_v1 rnd dims e (snd st)) = c # (rest @ fst (createGroupNodes_v1 rnd dims e (snd st)))"
    by (simp add: c(1))
  from generateGroup_v1_head [where sim = sim and dims = dims, OF this] assms c(2,3,4)
  have "\<exists>c rest. fst (generateGroup_v1 sim rnd dims e st) = c # rest \<and> n_x c = x \<and> n_y c = y \<and> hasAnomaly c = a"
    by auto
  from Cons.IH [OF this] show ?case by simp
qed

lemma generateNodes_v1_head_place:
  assumes "\<forall>allNodes j. sim dims allNodes j \<noteq>
     (n_x (fst (createNode_v1 rnd ''Production'' (snd (hd groups)) (mkSubclusters rnd dims 38 0) 38 0 76)),
      n_y (fst (createNode_v1 rnd ''Production'' (snd (hd groups)) (mkSubclusters rnd dims 38 0) 38 0 76)))"
  shows "\<exists>c rest. generateNodes_v1 sim rnd dims = c # rest \<and>
     n_x c = n_x (fst (createNode_v1 rnd ''Production'' (snd (hd groups)) (mkSubclusters rnd dims 38 0) 38 0 76)) \<and>
     n_y c = n_y (fst (createNode_v1 rnd ''Production'' (snd (hd groups)) (mkSubclusters rnd dims 38 0) 38 0 76)) \<and>
     hasAnomaly c = hasAnomaly (fst (createNode_v1 rnd ''Production'' (snd (hd groups)) (mkSubclusters rnd dims 38 0) 38 0 76))"
proof -
  let ?g = "fst (createNode_v1 rnd ''Production'' (snd (hd groups)) (mkSubclusters rnd dims 38 0) 38 0 76)"
  have g: "groups = hd groups # tl groups" by (simp add: groups_def)
  let ?st = "generateGroup_v1 sim rnd dims (hd groups) ([], 0)"
  from createGroupNodes_v1_first [of rnd dims] obtain rest where
    "fst (createGroupNodes_v1 rnd dims (hd groups) 0) = ?g # rest" by blast
  then have "fst ([], 0::nat) @ fst (createGroupNodes_v1 rnd dims (hd groups) (snd ([]::Node list, 0::nat))) = ?g # rest"
    by simp
  from generateGroup_v1_head [where sim = sim and dims = dims, OF this assms]
  have "\<exists>c rest. fst ?st = c # rest \<and> n_x c = n_x ?g \<and> n_y c = n_y ?g \<and> hasAnomaly c = hasAnomaly ?g"
    by blast
  from fold_generateGroup_v1_head [where sim = sim and dims = dims, OF assms this, of rnd "tl groups"]
  have "\<exists>c rest. fst (fold (generateGroup_v1 sim rnd dims) (tl groups) ?st) = c # rest \<and>
          n_x c = n_x ?g \<and> n_y c = n_y ?g \<and> hasAnomaly c = hasAnomaly ?g" .
  moreover have "generateNodes_v1 sim rnd dims = fst (fold (generateGroup_v1 sim rnd dims) (tl groups) ?st)"
    unfolding generateNodes_v1_def by (subst g) simp
  ultimately show ?thesis by simp
qed

lemma first_node_far:
  "n_x (fst (createNode_v1 rnd_far ''Production'' (snd (hd groups)) (mkSubclusters rnd_far narrow_viewport 38 0) 38 0 76)) = 54813 / 100"
  "n_y (fst (createNode_v1 rnd_far ''Production'' (snd (hd groups)) (mkSubclusters rnd_far narrow_viewport 38 0) 38 0 76)) = 160"
  "hasAnomaly (fst (createNode_v1 rnd_far ''Production'' (snd (hd groups)) (mkSubclusters rnd_far narrow_viewport 38 0) 38 0 76))"
proof -
  let ?g = "fst (createNode_v1 rnd_far ''Production'' (snd (hd groups)) (mkSubclusters rnd_far narrow_viewport 38 0) 38 0 76)"
  have "(n_x ?g, n_y ?g) = (54813 / 100, 160)"
    unfolding createNode_v1_position
    by (simp add: createProcesses_eq mkSubclusters_nth placeNode_def Let_def rnd_far_def narrow_viewport_def
        production_entry randomIndex_def)
  then show "n_x ?g = 54813 / 100" "n_y ?g = 160" by simp_all
  show "hasAnomaly ?g"
    by (simp add: createNode_v1_hasAnomaly production_entry rnd_far_def)
qed

lemma unit_rnd_far: "unit_rng rnd_far"
  by (simp add: unit_rng_def rnd_far_def)

lemma sim_spread_avoids: "sim_spread dims allNodes j \<noteq> (54813 / 100, 160)"
proof -
  have "3 * j \<noteq> 4" by presburger
  then have "real (3 * j) \<noteq> real 4" by (simp only: of_nat_eq_iff not_False_eq_True)
  then have "120 * real j \<noteq> 160" by simp
  then show ?thesis by (simp add: sim_spread_def)
qed

subsection \<open>The links drawn on the source that always returns 0\<close>

lemma links_zero:
  assumes "\<forall>i<15. gn_id (gns ! i) = ''node-'' @ string_of_nat i"
  shows "fst (forPush (linksFrom rnd_zero gns) [0..<15] k) =
     map (\<lambda>i. \<lparr> l_source = ''node-'' @ string_of_nat i, l_target = ''node-0'', l_value = 1 \<rparr>) [1..<15]"
proof -
  let ?link = "\<lambda>i. \<lparr> l_source = gn_id (gns ! i), l_target = gn_id (gns ! 0), l_value = 1 \<rparr>"
  have b: "linksFrom rnd_zero gns i k' = (if i = 0 then [] else [?link i], if i = 0 then k' + 2 else k' + 3)" for i k'
    by (simp add: linksFrom_def mkLink_def Let_def rnd_zero_def randomIndex_def)
  have "fst (forPush (\<lambda>i k'. (if i = 0 then [] else [?link i], if i = 0 then k' + 2 else k' + 3)) js k) =
       map ?link (filter (\<lambda>i. i \<noteq> 0) js)" for js k
    by (induction js arbitrary: k) (simp_all add: split_beta)
  then have l: "fst (forPush (linksFrom rnd_zero gns) [0..<15] k) = map ?link (filter (\<lambda>i. i \<noteq> 0) [0..<15])"
    unfolding b .
  have "[0..<15] = 0 # [1..<15]" by (simp add: upt_conv_Cons)
  then have f: "filter (\<lambda>i. i \<noteq> 0) [0..<15] = [1..<15]"
    by (simp del: upt_rec_numeral)
  have "map ?link [1..<15] =
      map (\<lambda>i. \<lparr> l_source = ''node-'' @ string_of_nat i, l_target = ''node-0'', l_value = 1 \<rparr>) [1..<15]"
    using assms by (simp del: upt_rec_numeral add: string_of_nat_0)
  then show ?thesis by (simp only: l f)
qed

subsection \<open>The passes over the dates\<close>











lemma unit_rnd_half: "unit_rng rnd_half"
  by (simp add: unit_rng_def rnd_half_def)

subsection \<open>Process objects\<close>

lemma forPush_obj_Cons:
  "forPush_obj body (i # js) k h =
     (fst (body i k h) @ fst (forPush_obj body js (fst (snd (body i k h))) (snd (snd (body i k h)))),
      snd (forPush_obj body js (fst (snd (body i k h))) (snd (snd (body i k h)))))"
  by (simp add: split_beta)

lemma forPush_obj_erase:
  assumes "\<And>j k h. map e (fst (body' j k h)) = fst (body j k)"
    and "\<And>j k h. fst (snd (body' j k h)) = snd (body j k)"
  shows "map e (fst (forPush_obj body' js k h)) = fst (forPush body js k) \<and>
         fst (snd (forPush_obj body' js k h)) = snd (forPush body js k)"
proof (induction js arbitrary: k h)
  case Nil
  show ?case by simp
next
  case (Cons j js)
  show ?case
    by (simp only: forPush_obj_Cons forPush_Cons_fst forPush_Cons_snd fst_conv snd_conv map_append assms Cons.IH)
qed

lemma forPush_obj_fresh:
  assumes "\<And>j k h. concat (map r (fst (body j k h))) = [h..<snd (snd (body j k h))] \<and> h \<le> snd (snd (body j k h))"
  shows "concat (map r (fst (forPush_obj body js k h))) = [h..<snd (snd (forPush_obj body js k h))] \<and>
         h \<le> snd (snd (forPush_obj body js k h))"
proof (induction js arbitrary: k h)
  case Nil
  show ?case by simp
next
  case (Cons j js)
  let ?k1 = "fst (snd (body j k h))" and ?h1 = "snd (snd (body j k h))"
  let ?h2 = "snd (snd (forPush_obj body js ?k1 ?h1))"
  from assms [of j k h] have a: "concat (map r (fst (body j k h))) = [h..<?h1]" "h \<le> ?h1" by simp_all
  from Cons.IH [of ?k1 ?h1] have b: "concat (map r (fst (forPush_obj body js ?k1 ?h1))) = [?h1..<?h2]" "?h1 \<le> ?h2"
    by simp_all
  from b(2) obtain d where d: "?h2 = ?h1 + d" by (auto simp: le_iff_add)
  have "[h..<?h1] @ [?h1..<?h2] = [h..<?h2]"
    unfolding d by (rule upt_add_eq_append [OF a(2), symmetric])
  then show ?case using a b
    by (simp only: forPush_obj_Cons fst_conv snd_conv map_append concat_append) simp
qed

lemma forPush_obj_single:
  "forPush_obj (\<lambda>j k h. ([(h, f j k)], k + 2, h + 1)) js k h =
     (zip [h..<h + length js] (fst (forPush (\<lambda>j k. ([f j k], k + 2)) js k)),
      snd (forPush (\<lambda>j k. ([f j k], k + 2)) js k), h + length js)"
proof (induction js arbitrary: k h)
  case Nil
  show ?case by simp
next
  case (Cons j js)
  have l: "[h..<h + Suc (length js)] = h # [h + 1..<h + 1 + length js]"
    using upt_conv_Cons [of h "h + Suc (length js)"] by simp
  have "forPush_obj (\<lambda>j k h. ([(h, f j k)], k + 2, h + 1)) (j # js) k h =
          ([(h, f j k)] @ zip [h + 1..<h + 1 + length js] (fst (forPush (\<lambda>j k. ([f j k], k + 2)) js (k + 2))),
           snd (forPush (\<lambda>j k. ([f j k], k + 2)) js (k + 2)), h + 1 + length js)"
    by (simp only: forPush_obj.simps Let_def split_conv Cons.IH)
  moreover have "forPush (\<lambda>j k. ([f j k], k + 2)) (j # js) k =
      (f j k # fst (forPush (\<lambda>j k. ([f j k], k + 2)) js (k + 2)), snd (forPush (\<lambda>j k. ([f j k], k + 2)) js (k + 2)))"
    by (simp only: forPush.simps Let_def split_beta fst_conv snd_conv append_Cons append_Nil)
  ultimately show ?case using l by (simp del: upt_Suc)
qed

lemma createProcesses_obj_eq:
  "createProcesses_obj rnd tag i ppc pc k h =
     (zip [h..<h + max pc ppc] (fst (createProcesses rnd tag i ppc pc k)),
      snd (createProcesses rnd tag i ppc pc k), h + max pc ppc)"
proof -
  let ?bad = "forPush (\<lambda>j k. ([mkProcess rnd tag i j (if j mod 2 = 0 then ''Error'' else ''Warning'') k], k + 2)) [0..<ppc] k"
  let ?good = "forPush (\<lambda>j k. ([mkProcess rnd tag i j ''OK'' k], k + 2)) [ppc..<pc] (snd ?bad)"
  have lb: "length (fst ?bad) = ppc" unfolding forPush_upt by simp
  have u: "[h..<h + ppc + (pc - ppc)] = [h..<h + ppc] @ [h + ppc..<h + ppc + (pc - ppc)]"
    by (rule upt_add_eq_append) simp
  have m: "h + ppc + (pc - ppc) = h + max pc ppc" by simp
  have c: "createProcesses rnd tag i ppc pc k = (fst ?bad @ fst ?good, snd ?good)"
    by (simp add: createProcesses_def problematicProcesses_def normalProcesses_def split_beta)
  have "createProcesses_obj rnd tag i ppc pc k h =
      (zip [h..<h + ppc] (fst ?bad) @ zip [h + ppc..<h + ppc + (pc - ppc)] (fst ?good), snd ?good, h + ppc + (pc - ppc))"
    unfolding createProcesses_obj_def forPush_obj_single Let_def split_conv by simp
  also have "zip [h..<h + ppc] (fst ?bad) @ zip [h + ppc..<h + ppc + (pc - ppc)] (fst ?good) =
      zip ([h..<h + ppc] @ [h + ppc..<h + ppc + (pc - ppc)]) (fst ?bad @ fst ?good)"
    by (rule zip_append [symmetric]) (simp only: lb length_upt add_diff_cancel_left')
  finally have f: "createProcesses_obj rnd tag i ppc pc k h =
      (zip ([h..<h + ppc] @ [h + ppc..<h + ppc + (pc - ppc)]) (fst ?bad @ fst ?good), snd ?good, h + ppc + (pc - ppc))" .
  have u': "[h..<h + ppc] @ [h + ppc..<h + ppc + (pc - ppc)] = [h..<h + max pc ppc]"
    unfolding u [symmetric] by (simp only: m)
  show ?thesis unfolding f c fst_conv snd_conv u' by (simp only: m)
qed

lemma createProcesses_obj_held:
  "map fst (fst (createProcesses_obj rnd tag i ppc pc k h)) = [h..<h + max pc ppc]"
  "map snd (fst (createProcesses_obj rnd tag i ppc pc k h)) = fst (createProcesses rnd tag i ppc pc k)"
  by (simp_all add: createProcesses_obj_eq createProcesses_length)

lemma createNode_snd:
  "snd (createNode rnd tag config date scs sc gs i k) =
     snd (createProcesses rnd tag i
            (if rnd k < anomalyRate config then randomIndex (rnd (k + 4)) 9 + 1 else 0)
            (randomIndex (rnd (k + 3)) 100 + 1)
            (if rnd k < anomalyRate config then k + 5 else k + 4)) + 1"
  unfolding createNode_def Let_def split_beta by simp

lemma createNode_v1_snd:
  "snd (createNode_v1 rnd tag config scs sc i k) =
     snd (createProcesses rnd tag i
            (if rnd (k + 1) < anomalyRate config then randomIndex (rnd (k + 2)) 9 + 1 else 0)
            (randomIndex (rnd k) 100 + 1)
            (if rnd (k + 1) < anomalyRate config then k + 3 else k + 2)) + 3"
  unfolding createNode_v1_def Let_def split_beta by simp

lemma createNode_obj_eq:
  "createNode_obj rnd tag config date scs sc gs i k h =
     ([(fst (createNode rnd tag config date scs sc gs i k),
        [h..<h + length (processes (properties (fst (createNode rnd tag config date scs sc gs i k))))])],
      snd (createNode rnd tag config date scs sc gs i k),
      h + length (processes (properties (fst (createNode rnd tag config date scs sc gs i k)))))"
  unfolding createNode_obj_def Let_def createNode_processes createNode_snd createProcesses_length split_beta
    createProcesses_obj_held
  by (simp add: createProcesses_obj_eq)

lemma createNode_v1_obj_eq:
  "createNode_v1_obj rnd tag config scs sc i k h =
     ([(fst (createNode_v1 rnd tag config scs sc i k),
        [h..<h + length (processes (properties (fst (createNode_v1 rnd tag config scs sc i k))))])],
      snd (createNode_v1 rnd tag config scs sc i k),
      h + length (processes (properties (fst (createNode_v1 rnd tag config scs sc i k)))))"
  unfolding createNode_v1_obj_def Let_def createNode_v1_processes createNode_v1_snd createProcesses_length split_beta
    createProcesses_obj_held
  by (simp add: createProcesses_obj_eq)

lemma forPush_obj_sizes:
  assumes "\<And>j k h. map (\<lambda>p. length (snd p)) (fst (body j k h)) =
                     map (\<lambda>p. length (processes (properties (fst p)))) (fst (body j k h))"
  shows "map (\<lambda>p. length (snd p)) (fst (forPush_obj body js k h)) =
         map (\<lambda>p. length (processes (properties (fst p)))) (fst (forPush_obj body js k h))"
proof (induction js arbitrary: k h)
  case Nil
  show ?case by simp
next
  case (Cons j js)
  show ?case by (simp only: forPush_obj_Cons fst_conv map_append assms Cons.IH)
qed

lemma generateGroup_obj_erase:
  "map fst (fst (generateGroup_obj rnd dims date dayTotal entry k h)) = fst (generateGroup rnd dims date dayTotal entry k) \<and>
   fst (snd (generateGroup_obj rnd dims date dayTotal entry k h)) = snd (generateGroup rnd dims date dayTotal entry k)"
  unfolding generateGroup_obj_def generateGroup_def Let_def
  by (rule forPush_obj_erase) (simp_all add: createNode_obj_eq split_beta)

lemma generateGroup_obj_fresh:
  "concat (map snd (fst (generateGroup_obj rnd dims date dayTotal entry k h))) =
     [h..<snd (snd (generateGroup_obj rnd dims date dayTotal entry k h))] \<and>
   h \<le> snd (snd (generateGroup_obj rnd dims date dayTotal entry k h))"
  unfolding generateGroup_obj_def Let_def
  by (rule forPush_obj_fresh) (simp add: createNode_obj_eq)

lemma generateGroup_obj_sizes:
  "map (\<lambda>p. length (snd p)) (fst (generateGroup_obj rnd dims date dayTotal entry k h)) =
   map (\<lambda>p. length (processes (properties (fst p)))) (fst (generateGroup_obj rnd dims date dayTotal entry k h))"
  unfolding generateGroup_obj_def Let_def
  by (rule forPush_obj_sizes) (simp add: createNode_obj_eq)

lemma generateDate_obj_erase:
  "map fst (fst (generateDate_obj rnd dims date k h)) = fst (generateDate rnd dims date k) \<and>
   fst (snd (generateDate_obj rnd dims date k h)) = snd (generateDate rnd dims date k)"
  unfolding generateDate_obj_def generateDate_def
  by (rule forPush_obj_erase) (simp_all add: generateGroup_obj_erase)

lemma generateDate_obj_fresh:
  "concat (map snd (fst (generateDate_obj rnd dims date k h))) = [h..<snd (snd (generateDate_obj rnd dims date k h))] \<and>
   h \<le> snd (snd (generateDate_obj rnd dims date k h))"
  unfolding generateDate_obj_def
  by (rule forPush_obj_fresh) (rule generateGroup_obj_fresh)

lemma generateDate_obj_sizes:
  "map (\<lambda>p. length (snd p)) (fst (generateDate_obj rnd dims date k h)) =
   map (\<lambda>p. length (processes (properties (fst p)))) (fst (generateDate_obj rnd dims date k h))"
  unfolding generateDate_obj_def
  by (rule forPush_obj_sizes) (rule generateGroup_obj_sizes)

lemma generateNodes_obj_facts:
  "map fst (fst (generateNodes_obj rnd dims dates)) = generateNodes rnd dims dates"
  "concat (map snd (fst (generateNodes_obj rnd dims dates))) = [0..<snd (snd (generateNodes_obj rnd dims dates))]"
  "map (\<lambda>p. length (snd p)) (fst (generateNodes_obj rnd dims dates)) =
   map (\<lambda>p. length (processes (properties (fst p)))) (fst (generateNodes_obj rnd dims dates))"
proof -
  have "map fst (fst (forPush_obj (generateDate_obj rnd dims) dates 0 0)) = fst (forPush (generateDate rnd dims) dates 0) \<and>
        fst (snd (forPush_obj (generateDate_obj rnd dims) dates 0 0)) = snd (forPush (generateDate rnd dims) dates 0)"
    by (rule forPush_obj_erase) (simp_all add: generateDate_obj_erase)
  then show "map fst (fst (generateNodes_obj rnd dims dates)) = generateNodes rnd dims dates"
    by (simp add: generateNodes_obj_def generateNodes_def)
  have "concat (map snd (fst (forPush_obj (generateDate_obj rnd dims) dates 0 0))) =
          [0..<snd (snd (forPush_obj (generateDate_obj rnd dims) dates 0 0))] \<and>
        0 \<le> snd (snd (forPush_obj (generateDate_obj rnd dims) dates 0 0))"
    by (rule forPush_obj_fresh) (rule generateDate_obj_fresh)
  then show "concat (map snd (fst (generateNodes_obj rnd dims dates))) = [0..<snd (snd (generateNodes_obj rnd dims dates))]"
    by (simp add: generateNodes_obj_def)
  show "map (\<lambda>p. length (snd p)) (fst (generateNodes_obj rnd dims dates)) =
   map (\<lambda>p. length (processes (properties (fst p)))) (fst (generateNodes_obj rnd dims dates))"
    unfolding generateNodes_obj_def
    by (rule forPush_obj_sizes) (rule generateDate_obj_sizes)
qed

lemma createGroupNodes_v1_obj_erase:
  "map fst (fst (createGroupNodes_v1_obj rnd dims entry k h)) = fst (createGroupNodes_v1 rnd dims entry k) \<and>
   fst (snd (createGroupNodes_v1_obj rnd dims entry k h)) = snd (createGroupNodes_v1 rnd dims entry k)"
  unfolding createGroupNodes_v1_obj_def createGroupNodes_v1_def Let_def
  by (rule forPush_obj_erase) (simp_all add: createNode_v1_obj_eq split_beta)

lemma createGroupNodes_v1_obj_fresh:
  "concat (map snd (fst (createGroupNodes_v1_obj rnd dims entry k h))) =
     [h..<snd (snd (createGroupNodes_v1_obj rnd dims entry k h))] \<and>
   h \<le> snd (snd (createGroupNodes_v1_obj rnd dims entry k h))"
  unfolding createGroupNodes_v1_obj_def Let_def
  by (rule forPush_obj_fresh) (simp add: createNode_v1_obj_eq)

lemma createGroupNodes_v1_obj_sizes:
  "map (\<lambda>p. length (snd p)) (fst (createGroupNodes_v1_obj rnd dims entry k h)) =
   map (\<lambda>p. length (processes (properties (fst p)))) (fst (createGroupNodes_v1_obj rnd dims entry k h))"
  unfolding createGroupNodes_v1_obj_def Let_def
  by (rule forPush_obj_sizes) (simp add: createNode_v1_obj_eq)

lemma alike_sizes:
  assumes "list_all2 alike xs ys"
  shows "map (\<lambda>a. length (processes (properties a))) xs = map (\<lambda>a. length (processes (properties a))) ys"
  using assms
proof (induction rule: list_all2_induct)
  case Nil
  show ?case by simp
next
  case (Cons x xs y ys)
  from Cons.hyps(1) have "map p_id (processes (properties x)) = map p_id (processes (properties y))"
    by (simp add: alike_def)
  then have "length (processes (properties x)) = length (processes (properties y))"
    by (rule map_eq_imp_length_eq)
  then show ?case using Cons.IH by simp
qed

lemma generateGroup_v1_obj_fst:
  "fst (generateGroup_v1_obj sim rnd dims entry st) =
     zip (fst (generateGroup_v1 sim rnd dims entry (map fst (fst st), fst (snd st))))
       (map snd (fst st) @ map snd (fst (createGroupNodes_v1_obj rnd dims entry (fst (snd st)) (snd (snd st)))))"
  "fst (snd (generateGroup_v1_obj sim rnd dims entry st)) =
     snd (generateGroup_v1 sim rnd dims entry (map fst (fst st), fst (snd st)))"
  "snd (snd (generateGroup_v1_obj sim rnd dims entry st)) =
     snd (snd (createGroupNodes_v1_obj rnd dims entry (fst (snd st)) (snd (snd st))))"
  unfolding generateGroup_v1_obj_def Let_def split_beta by simp_all

lemma generateGroup_v1_obj_step:
  assumes "map (\<lambda>p. length (snd p)) (fst st) = map (\<lambda>p. length (processes (properties (fst p)))) (fst st)"
    and "concat (map snd (fst st)) = [0..<snd (snd st)]"
  shows "map fst (fst (generateGroup_v1_obj sim rnd dims entry st)) =
           fst (generateGroup_v1 sim rnd dims entry (map fst (fst st), fst (snd st)))"
    and "concat (map snd (fst (generateGroup_v1_obj sim rnd dims entry st))) =
           [0..<snd (snd (generateGroup_v1_obj sim rnd dims entry st))]"
    and "map (\<lambda>p. length (snd p)) (fst (generateGroup_v1_obj sim rnd dims entry st)) =
         map (\<lambda>p. length (processes (properties (fst p)))) (fst (generateGroup_v1_obj sim rnd dims entry st))"
proof -
  let ?k = "fst (snd st)" and ?h = "snd (snd st)"
  let ?created = "createGroupNodes_v1_obj rnd dims entry ?k ?h"
  let ?plain = "fst (createGroupNodes_v1 rnd dims entry ?k)"
  let ?nodes = "fst (generateGroup_v1 sim rnd dims entry (map fst (fst st), ?k))"
  let ?objs = "map snd (fst st) @ map snd (fst ?created)"
  have e: "map fst (fst ?created) = ?plain"
    using createGroupNodes_v1_obj_erase [of rnd dims entry ?k ?h] by simp
  have a: "list_all2 alike ?nodes (map fst (fst st) @ ?plain)"
    using generateGroup_v1_alike [of sim rnd dims entry "(map fst (fst st), ?k)"] by simp
  have "length ?plain = length (fst ?created)"
    using e [symmetric] by (simp only: length_map)
  then have l: "length ?nodes = length ?objs"
    using list_all2_lengthD [OF a] by simp
  show n: "map fst (fst (generateGroup_v1_obj sim rnd dims entry st)) = ?nodes"
    using l by (simp only: generateGroup_v1_obj_fst map_fst_zip)
  have o: "map snd (fst (generateGroup_v1_obj sim rnd dims entry st)) = ?objs"
    using l by (simp only: generateGroup_v1_obj_fst map_snd_zip)
  from createGroupNodes_v1_obj_fresh [of rnd dims entry ?k ?h]
  have f: "concat (map snd (fst ?created)) = [?h..<snd (snd ?created)]" "?h \<le> snd (snd ?created)"
    by simp_all
  from f(2) obtain d where d: "snd (snd ?created) = ?h + d" by (auto simp: le_iff_add)
  have "[0..<?h] @ [?h..<snd (snd ?created)] = [0..<snd (snd ?created)]"
    unfolding d by (rule upt_add_eq_append [symmetric]) simp
  then show "concat (map snd (fst (generateGroup_v1_obj sim rnd dims entry st))) =
           [0..<snd (snd (generateGroup_v1_obj sim rnd dims entry st))]"
    by (simp only: o concat_append assms(2) f(1) generateGroup_v1_obj_fst(3))
  have "map length ?objs =
        map (\<lambda>a. length (processes (properties a))) (map fst (fst st) @ ?plain)"
    using assms(1) createGroupNodes_v1_obj_sizes [of rnd dims entry ?k ?h]
    by (simp add: e [symmetric] comp_def)
  also have "\<dots> = map (\<lambda>a. length (processes (properties a))) ?nodes"
    by (rule alike_sizes [OF a, symmetric])
  finally have "map length (map snd (fst (generateGroup_v1_obj sim rnd dims entry st))) =
      map (\<lambda>a. length (processes (properties a))) (map fst (fst (generateGroup_v1_obj sim rnd dims entry st)))"
    by (simp only: o n)
  then show "map (\<lambda>p. length (snd p)) (fst (generateGroup_v1_obj sim rnd dims entry st)) =
         map (\<lambda>p. length (processes (properties (fst p)))) (fst (generateGroup_v1_obj sim rnd dims entry st))"
    by (simp add: comp_def)
qed

lemma fold_generateGroup_v1_obj:
  assumes "map (\<lambda>p. length (snd p)) (fst st) = map (\<lambda>p. length (processes (properties (fst p)))) (fst st)"
    and "concat (map snd (fst st)) = [0..<snd (snd st)]"
  shows "map fst (fst (fold (generateGroup_v1_obj sim rnd dims) es st)) =
           fst (fold (generateGroup_v1 sim rnd dims) es (map fst (fst st), fst (snd st))) \<and>
         concat (map snd (fst (fold (generateGroup_v1_obj sim rnd dims) es st))) =
           [0..<snd (snd (fold (generateGroup_v1_obj sim rnd dims) es st))] \<and>
         map (\<lambda>p. length (snd p)) (fst (fold (generateGroup_v1_obj sim rnd dims) es st)) =
         map (\<lambda>p. length (processes (properties (fst p)))) (fst (fold (generateGroup_v1_obj sim rnd dims) es st))"
  using assms
proof (induction es arbitrary: st)
  case Nil
  then show ?case by simp
next
  case (Cons e es)
  let ?st = "generateGroup_v1_obj sim rnd dims e st"
  note s = generateGroup_v1_obj_step [OF Cons.prems, of sim rnd dims e]
  have p: "(map fst (fst ?st), fst (snd ?st)) = generateGroup_v1 sim rnd dims e (map fst (fst st), fst (snd st))"
    by (simp add: s(1) generateGroup_v1_obj_fst(2))
  from Cons.IH [OF s(3) s(2)] show ?case by (simp add: p)
qed

lemma generateNodes_v1_obj_facts:
  "map fst (fst (generateNodes_v1_obj sim rnd dims)) = generateNodes_v1 sim rnd dims"
  "concat (map snd (fst (generateNodes_v1_obj sim rnd dims))) = [0..<snd (snd (generateNodes_v1_obj sim rnd dims))]"
  "map (\<lambda>p. length (snd p)) (fst (generateNodes_v1_obj sim rnd dims)) =
   map (\<lambda>p. length (processes (properties (fst p)))) (fst (generateNodes_v1_obj sim rnd dims))"
  using fold_generateGroup_v1_obj [of "([], 0, 0)" sim rnd dims groups]
  by (simp_all add: generateNodes_v1_obj_def generateNodes_v1_def)

lemma concat_upt_owner:
  assumes "concat xss = [0..<n]" "obj < n"
  shows "\<exists>!p. p < length xss \<and> obj \<in> set (xss ! p)"
proof -
  have d: "distinct (concat xss)" by (simp only: assms(1) distinct_upt)
  have "obj \<in> set (concat xss)" using assms by simp
  then obtain xs where "xs \<in> set xss" "obj \<in> set xs" by auto
  then obtain p where p: "p < length xss" "obj \<in> set (xss ! p)"
    by (auto simp: in_set_conv_nth)
  have u: "\<not> (obj \<in> set (xss ! a) \<and> obj \<in> set (xss ! b))" if "a < b" "b < length xss" for a b
  proof
    assume o: "obj \<in> set (xss ! a) \<and> obj \<in> set (xss ! b)"
    have "concat xss = concat (take b xss) @ concat (drop b xss)"
      by (simp only: concat_append [symmetric] append_take_drop_id)
    with d have i: "set (concat (take b xss)) \<inter> set (concat (drop b xss)) = {}"
      by simp
    have "xss ! a \<in> set (take b xss)"
      using that by (auto simp: in_set_conv_nth intro!: exI [of _ a])
    then have 1: "obj \<in> set (concat (take b xss))" using o by auto
    have "xss ! b \<in> set (drop b xss)"
      using that(2) by (auto simp: in_set_conv_nth intro!: exI [of _ 0])
    then have 2: "obj \<in> set (concat (drop b xss))" using o by auto
    from 1 2 i show False by blast
  qed
  show ?thesis
  proof (rule ex1I [of _ p])
    show "p < length xss \<and> obj \<in> set (xss ! p)" using p by simp
    fix q assume q: "q < length xss \<and> obj \<in> set (xss ! q)"
    show "q = p"
    proof (rule ccontr)
      assume "q \<noteq> p"
      then consider "q < p" | "p < q" by linarith
      then show False
      proof cases
        case 1
        from u [OF 1 p(1)] q p(2) show False by simp
      next
        case 2
        from u [OF 2] q p(2) show False by simp
      qed
    qed
  qed
qed

lemma concat_upt_distinct:
  assumes "concat xss = [0..<n]" "p < length xss"
  shows "distinct (xss ! p)"
proof -
  have "distinct (concat xss)" by (simp only: assms(1) distinct_upt)
  moreover have "xss ! p \<in> set xss" using assms(2) by simp
  ultimately show ?thesis by (simp add: distinct_concat_iff)
qed

lemma owned_shape:
  assumes e: "concat (map snd owned) = [0..<created]"
    and s: "map (\<lambda>p. length (snd p)) owned = map (\<lambda>p. length (processes (properties (fst p)))) owned"
  shows "(\<forall>p<length owned. length (snd (owned ! p)) = length (processes (properties (fst (owned ! p)))) \<and>
            distinct (snd (owned ! p))) \<and>
         (\<forall>obj<created. \<exists>!p. p < length owned \<and> obj \<in> set (snd (owned ! p)))"
proof (intro conjI allI impI)
  fix p assume p: "p < length owned"
  from s have "map (\<lambda>p. length (snd p)) owned ! p = map (\<lambda>p. length (processes (properties (fst p)))) owned ! p"
    by (rule arg_cong)
  then show "length (snd (owned ! p)) = length (processes (properties (fst (owned ! p))))"
    using p by simp
  from concat_upt_distinct [OF e] p show "distinct (snd (owned ! p))" by simp
next
  fix obj assume "obj < created"
  from concat_upt_owner [OF e this] show "\<exists>!p. p < length owned \<and> obj \<in> set (snd (owned ! p))"
    by (simp cong: conj_cong)
qed

lemma first_node_half:
  "\<exists>rest. generateNodes rnd_half dims (date # dates) = hd (generateNodes rnd_half dims (date # dates)) # rest"
  "length (processes (properties (hd (generateNodes rnd_half dims (date # dates))))) = 51"
proof -
  have u: "0 \<le> rnd_half 0" "rnd_half 0 < 1" by (simp_all add: rnd_half_def)
  from generateNodes_first [where rnd = rnd_half and dims = dims and date = date and dates = dates, OF u] obtain c rest where
    g: "generateNodes rnd_half dims (date # dates) = c # rest" and
    c: "\<exists>scs sc gs k. c = fst (createNode rnd_half (fst (hd groups)) (snd (hd groups)) date scs sc gs 0 k)"
    by blast
  from g show "\<exists>rest. generateNodes rnd_half dims (date # dates) = hd (generateNodes rnd_half dims (date # dates)) # rest"
    by simp
  from c obtain scs sc gs k where "c = fst (createNode rnd_half (fst (hd groups)) (snd (hd groups)) date scs sc gs 0 k)"
    by blast
  then have "length (processes (properties c)) = 51"
    by (simp add: createNode_processes createProcesses_length rnd_half_def production_entry randomIndex_def)
  then show "length (processes (properties (hd (generateNodes rnd_half dims (date # dates))))) = 51"
    by (simp add: g)
qed

lemma first_node_v1_half:
  "\<exists>rest. generateNodes_v1 sim rnd_half dims = hd (generateNodes_v1 sim rnd_half dims) # rest"
  "length (processes (properties (hd (generateNodes_v1 sim rnd_half dims)))) = 51"
proof -
  from generateNodes_v1_first [of sim rnd_half dims] obtain c rest where
    g: "generateNodes_v1 sim rnd_half dims = c # rest" and
    a: "alike c (fst (createNode_v1 rnd_half ''Production'' (snd (hd groups)) (mkSubclusters rnd_half dims 38 0) 38 0 76))"
    by blast
  from g show "\<exists>rest. generateNodes_v1 sim rnd_half dims = hd (generateNodes_v1 sim rnd_half dims) # rest"
    by simp
  from a have "map p_id (processes (properties c)) =
      map p_id (processes (properties (fst (createNode_v1 rnd_half ''Production'' (snd (hd groups)) (mkSubclusters rnd_half dims 38 0) 38 0 76))))"
    by (simp add: alike_def)
  then have "length (processes (properties c)) =
      length (processes (properties (fst (createNode_v1 rnd_half ''Production'' (snd (hd groups)) (mkSubclusters rnd_half dims 38 0) 38 0 76))))"
    by (rule map_eq_imp_length_eq)
  also have "\<dots> = 51"
    by (simp add: createNode_v1_processes createProcesses_length rnd_half_def production_entry randomIndex_def)
  finally show "length (processes (properties (hd (generateNodes_v1 sim rnd_half dims)))) = 51"
    by (simp add: g)
qed

lemma first_owned:
  assumes e: "map fst owned = c # rest"
    and f: "concat (map snd owned) = [0..<created]"
    and s: "length (snd (owned ! 0)) = m"
  shows "fst (owned ! 0) = c" "snd (owned ! 0) = [0..<m]" "m \<le> created"
proof -
  from e obtain x xs where o: "owned = x # xs" "fst x = c" by (auto simp: map_eq_Cons_conv)
  then show "fst (owned ! 0) = c" by simp
  from f o have a: "snd x @ concat (map snd xs) = [0..<created]" by simp
  then have "length (snd x @ concat (map snd xs)) = length [0..<created]" by (rule arg_cong)
  then show l: "m \<le> created" using s o by simp
  from a have "snd x = take (length (snd x)) [0..<created]"
    by (simp add: append_eq_conv_conj)
  also have "\<dots> = [0..<m]" using l s o by (simp add: take_upt)
  finally show "snd (owned ! 0) = [0..<m]" using o by simp
qed

section \<open>The claims\<close>

subsection \<open>C1: the number of non-OK processes\<close>

text \<open>
  C1. For every asset produced by the generator (either revision), on a random source that
  keeps the contract of \<^verbatim>\<open>Math.random()\<close>: an anomalous asset has between 1 and 9 processes
  whose status is not \<^verbatim>\<open>'OK'\<close>, and an asset that is not anomalous has none.
\<close>

theorem anomalous_issue_count:
  assumes "unit_rng rnd"
  shows "(\<forall>a\<in>set (generateNodes rnd dims dates).
            (hasAnomaly a \<longrightarrow> 1 \<le> issues a \<and> issues a \<le> 9) \<and> (\<not> hasAnomaly a \<longrightarrow> issues a = 0)) \<and>
         (\<forall>a\<in>set (generateNodes_v1 sim rnd dims).
            (hasAnomaly a \<longrightarrow> 1 \<le> issues a \<and> issues a \<le> 9) \<and> (\<not> hasAnomaly a \<longrightarrow> issues a = 0))"
  using generateNodes_statusShape [OF assms] generateNodes_v1_statusShape [OF assms] statusShape_issues
  by blast

theorem anomalous_issue_count_witness:
  "unit_rng rnd_zero \<and>
   hd (generateNodes rnd_zero viewport [''2024-05-01'']) \<in> set (generateNodes rnd_zero viewport [''2024-05-01'']) \<and>
   hasAnomaly (hd (generateNodes rnd_zero viewport [''2024-05-01''])) \<and>
   1 \<le> issues (hd (generateNodes rnd_zero viewport [''2024-05-01''])) \<and>
   issues (hd (generateNodes rnd_zero viewport [''2024-05-01''])) \<le> 9 \<and>
   hd (generateNodes_v1 sim_still rnd_zero viewport) \<in> set (generateNodes_v1 sim_still rnd_zero viewport) \<and>
   hasAnomaly (hd (generateNodes_v1 sim_still rnd_zero viewport)) \<and>
   1 \<le> issues (hd (generateNodes_v1 sim_still rnd_zero viewport)) \<and>
   issues (hd (generateNodes_v1 sim_still rnd_zero viewport)) \<le> 9"
  using anomalous_issue_count [OF unit_rnd_zero, of viewport "[''2024-05-01'']" sim_still]
    first_nodes_zero unit_rnd_zero
  by blast

subsection \<open>C2: the asset selected by a click on a cell\<close>

text \<open>
  C2. For every hex cell with at least one member, clicking the cell selects the member
  whose count of processes with a status other than \<^verbatim>\<open>'OK'\<close> is maximal among the cell's
  members; when several members tie for the maximum, the first of them in the cell's order
  is selected.
\<close>

theorem click_selects_first_maximum:
  assumes "d \<noteq> []"
  shows "\<exists>i<length d. selectedNode (dispatch (HexClick d) s) = Some (d ! i) \<and>
           (\<forall>m\<in>set d. issues m \<le> issues (d ! i)) \<and> (\<forall>j<i. issues (d ! j) < issues (d ! i))"
  using nodeWithMostIssues_first_max [OF assms] by (simp add: selectedNode_dispatch)

theorem click_selects_first_maximum_witness:
  "sample_cell \<noteq> [] \<and> selectedNode (dispatch (HexClick sample_cell) idle_state) = Some (sample_cell ! 1) \<and>
   issues (sample_cell ! 0) = 1 \<and> issues (sample_cell ! 1) = 2 \<and> issues (sample_cell ! 2) = 2"
proof -
  from click_selects_first_maximum [OF sample_cell_issues(5), of idle_state] obtain i where
    i: "i < length sample_cell" "selectedNode (dispatch (HexClick sample_cell) idle_state) = Some (sample_cell ! i)"
      "\<forall>m\<in>set sample_cell. issues m \<le> issues (sample_cell ! i)"
      "\<forall>j<i. issues (sample_cell ! j) < issues (sample_cell ! i)"
    by blast
  from i(1) have "i = 0 \<or> i = 1 \<or> i = 2" by (auto simp: sample_cell_issues(4))
  moreover have "i \<noteq> 0"
  proof
    assume "i = 0"
    moreover have "sample_cell ! 1 \<in> set sample_cell" by (simp add: sample_cell_issues(4))
    ultimately show False using i(3) sample_cell_issues(1,2) by fastforce
  qed
  moreover have "i \<noteq> 2"
  proof
    assume "i = 2"
    then have "issues (sample_cell ! 1) < issues (sample_cell ! 2)" using i(4) by simp
    then show False by (simp only: sample_cell_issues)
  qed
  ultimately have "i = 1" by blast
  then show ?thesis using i(2) sample_cell_issues by simp
qed

subsection \<open>C3: positions after the declutter pass\<close>

text \<open>
  C3 says that after the declutter pass every asset lies within the viewport, 60 from every
  edge if it is anomalous and 25 if it is healthy. The pass is in the earlier revision: the
  simulation over the copies in \<^verbatim>\<open>allNodes\<close>, then the statement under the comment
  \<^verbatim>\<open>Update node positions\<close>, whose clamp stands under the comment
  \<^verbatim>\<open>Ensure nodes stay within bounds\<close>. The statement writes to the entry of \<^verbatim>\<open>nodes\<close> that
  \<^verbatim>\<open>nodes.findIndex\<close> finds with the position of the simulated copy, and once the ticks have
  moved the copy no entry has that position: nothing is found, and the asset keeps the
  position it was generated at, neither simulated nor clamped. The theorem evaluates the
  generator on a 600 by 800 viewport and the source \<open>rnd_far\<close>, which generates the first
  asset, an anomalous one, at \<open>(548.13, 160)\<close>: whenever the simulation returns that very
  point for no copy, the asset ends at \<open>x = 548.13\<close>, beyond \<open>width - 60 = 540\<close>, outside
  the bounds of C3.
\<close>

theorem moved_asset_is_not_clamped:
  assumes "\<forall>allNodes j. sim narrow_viewport allNodes j \<noteq> (54813 / 100, 160)"
  shows "\<exists>c rest. generateNodes_v1 sim rnd_far narrow_viewport = c # rest \<and> hasAnomaly c \<and>
           n_x c = 54813 / 100 \<and> n_y c = 160 \<and> \<not> inBounds narrow_viewport c"
proof -
  from generateNodes_v1_head_place [where sim = sim and dims = narrow_viewport and rnd = rnd_far]
    assms first_node_far
  obtain c rest where c: "generateNodes_v1 sim rnd_far narrow_viewport = c # rest"
    "n_x c = 54813 / 100" "n_y c = 160" "hasAnomaly c"
    by auto
  have "\<not> inBounds narrow_viewport c"
    using c(2,4) by (simp add: inBounds_def margin_def narrow_viewport_def)
  with c show ?thesis by blast
qed

theorem moved_asset_is_not_clamped_witness:
  "unit_rng rnd_far \<and>
   (\<forall>allNodes j. sim_spread narrow_viewport allNodes j \<noteq> (54813 / 100, 160)) \<and>
   (\<exists>c rest. generateNodes_v1 sim_spread rnd_far narrow_viewport = c # rest \<and> hasAnomaly c \<and>
      n_x c = 54813 / 100 \<and> width narrow_viewport - margin (hasAnomaly c) = 540 \<and>
      \<not> (n_x c \<le> width narrow_viewport - margin (hasAnomaly c)))"
proof -
  have a: "\<forall>allNodes j. sim_spread narrow_viewport allNodes j \<noteq> (54813 / 100, 160)"
    by (simp add: sim_spread_avoids)
  from moved_asset_is_not_clamped [where sim = sim_spread, OF a] obtain c rest where
    c: "generateNodes_v1 sim_spread rnd_far narrow_viewport = c # rest" "hasAnomaly c" "n_x c = 54813 / 100"
    by blast
  have "width narrow_viewport - margin (hasAnomaly c) = 540"
    "\<not> (n_x c \<le> width narrow_viewport - margin (hasAnomaly c))"
    using c(2,3) by (simp_all add: margin_def narrow_viewport_def)
  with c a unit_rnd_far show ?thesis by blast
qed

subsection \<open>C4: the per-date scaling\<close>



subsection \<open>C5: process owners and identifiers\<close>

text \<open>
  C5, as amended. In either revision, followed with the process objects named: the nodes
  are those of the generator; the objects held by an asset are as many as the processes in
  its list and pairwise different; every process object created in the run is held by
  exactly one asset of the result, so every process belongs to exactly one asset; and the
  ids of the processes of one asset are pairwise different: they are
  \<^verbatim>\<open>proc-<tag>-<i>-<j>\<close> for the asset's tag, its index \<open>i\<close> and the positions
  \<open>j = 0, 1, ...\<close> of its process list. The date is not part of the id, so the ids are
  unique within an asset, not within tag and index alone.
\<close>

theorem processes_owned_once_ids_unique:
  "map fst (fst (generateNodes_obj rnd dims dates)) = generateNodes rnd dims dates \<and>
   (\<forall>p<length (fst (generateNodes_obj rnd dims dates)).
      length (snd (fst (generateNodes_obj rnd dims dates) ! p)) =
        length (processes (properties (fst (fst (generateNodes_obj rnd dims dates) ! p)))) \<and>
      distinct (snd (fst (generateNodes_obj rnd dims dates) ! p))) \<and>
   (\<forall>obj<snd (snd (generateNodes_obj rnd dims dates)).
      \<exists>!p. p < length (fst (generateNodes_obj rnd dims dates)) \<and>
           obj \<in> set (snd (fst (generateNodes_obj rnd dims dates) ! p))) \<and>
   (\<forall>a\<in>set (generateNodes rnd dims dates).
      idsFollowScheme a \<and> distinct (map p_id (processes (properties a)))) \<and>
   map fst (fst (generateNodes_v1_obj sim rnd dims)) = generateNodes_v1 sim rnd dims \<and>
   (\<forall>p<length (fst (generateNodes_v1_obj sim rnd dims)).
      length (snd (fst (generateNodes_v1_obj sim rnd dims) ! p)) =
        length (processes (properties (fst (fst (generateNodes_v1_obj sim rnd dims) ! p)))) \<and>
      distinct (snd (fst (generateNodes_v1_obj sim rnd dims) ! p))) \<and>
   (\<forall>obj<snd (snd (generateNodes_v1_obj sim rnd dims)).
      \<exists>!p. p < length (fst (generateNodes_v1_obj sim rnd dims)) \<and>
           obj \<in> set (snd (fst (generateNodes_v1_obj sim rnd dims) ! p))) \<and>
   (\<forall>a\<in>set (generateNodes_v1 sim rnd dims).
      idsFollowScheme a \<and> distinct (map p_id (processes (properties a))))"
proof -
  note o = owned_shape [OF generateNodes_obj_facts(2,3), of rnd dims dates]
  note o1 = owned_shape [OF generateNodes_v1_obj_facts(2,3), of sim rnd dims]
  have i: "\<forall>a\<in>set (generateNodes rnd dims dates).
      idsFollowScheme a \<and> distinct (map p_id (processes (properties a)))"
  proof
    fix a assume "a \<in> set (generateNodes rnd dims dates)"
    from generateNodes_origin [OF this] createNode_idsFollowScheme
    have "idsFollowScheme a" by blast
    then show "idsFollowScheme a \<and> distinct (map p_id (processes (properties a)))"
      by (simp add: idsFollowScheme_distinct)
  qed
  have i1: "\<forall>a\<in>set (generateNodes_v1 sim rnd dims).
      idsFollowScheme a \<and> distinct (map p_id (processes (properties a)))"
  proof
    fix a assume "a \<in> set (generateNodes_v1 sim rnd dims)"
    with generateNodes_v1_origin have "fromGroup_v1 rnd dims a" by blast
    then have "idsFollowScheme a"
      unfolding fromGroup_v1_def using createNode_v1_idsFollowScheme alike_idsFollowScheme by blast
    then show "idsFollowScheme a \<and> distinct (map p_id (processes (properties a)))"
      by (simp add: idsFollowScheme_distinct)
  qed
  show ?thesis
    by (intro conjI)
      (rule generateNodes_obj_facts(1), rule o [THEN conjunct1], rule o [THEN conjunct2], rule i,
       rule generateNodes_v1_obj_facts(1), rule o1 [THEN conjunct1], rule o1 [THEN conjunct2], rule i1)
qed

theorem processes_owned_once_ids_unique_witness:
  "unit_rng rnd_half \<and>
   hd (generateNodes rnd_half viewport [''2024-05-01'']) \<in> set (generateNodes rnd_half viewport [''2024-05-01'']) \<and>
   length (processes (properties (hd (generateNodes rnd_half viewport [''2024-05-01''])))) = 51 \<and>
   idsFollowScheme (hd (generateNodes rnd_half viewport [''2024-05-01''])) \<and>
   distinct (map p_id (processes (properties (hd (generateNodes rnd_half viewport [''2024-05-01''])))))  \<and>
   fst (fst (generateNodes_obj rnd_half viewport [''2024-05-01'']) ! 0) = hd (generateNodes rnd_half viewport [''2024-05-01'']) \<and>
   snd (fst (generateNodes_obj rnd_half viewport [''2024-05-01'']) ! 0) = [0..<51] \<and>
   (\<exists>!p. p < length (fst (generateNodes_obj rnd_half viewport [''2024-05-01''])) \<and>
         50 \<in> set (snd (fst (generateNodes_obj rnd_half viewport [''2024-05-01'']) ! p))) \<and>
   hd (generateNodes_v1 sim_still rnd_half viewport) \<in> set (generateNodes_v1 sim_still rnd_half viewport) \<and>
   length (processes (properties (hd (generateNodes_v1 sim_still rnd_half viewport)))) = 51 \<and>
   distinct (map p_id (processes (properties (hd (generateNodes_v1 sim_still rnd_half viewport))))) \<and>
   snd (fst (generateNodes_v1_obj sim_still rnd_half viewport) ! 0) = [0..<51]"
proof -
  let ?nodes = "generateNodes rnd_half viewport [''2024-05-01'']"
  let ?run = "generateNodes_obj rnd_half viewport [''2024-05-01'']"
  let ?nodes1 = "generateNodes_v1 sim_still rnd_half viewport"
  let ?run1 = "generateNodes_v1_obj sim_still rnd_half viewport"
  note t = processes_owned_once_ids_unique [of rnd_half viewport "[''2024-05-01'']" sim_still]
  from first_node_half(1) [of viewport "''2024-05-01''" "[]"] obtain rest where
    g: "?nodes = hd ?nodes # rest" by blast
  then have m: "hd ?nodes \<in> set ?nodes" by (metis list.set_intros(1))
  from first_node_v1_half(1) [of sim_still viewport] obtain rest1 where
    g1: "?nodes1 = hd ?nodes1 # rest1" by blast
  then have m1: "hd ?nodes1 \<in> set ?nodes1" by (metis list.set_intros(1))
  note n = first_node_half(2) [of viewport "''2024-05-01''" "[]"]
  note n1 = first_node_v1_half(2) [of sim_still viewport]
  from t m have i: "idsFollowScheme (hd ?nodes)" "distinct (map p_id (processes (properties (hd ?nodes))))"
    by blast+
  from t m1 have i1: "distinct (map p_id (processes (properties (hd ?nodes1))))"
    by blast
  from t g have e: "map fst (fst ?run) = hd ?nodes # rest" by simp
  then have p: "0 < length (fst ?run)" by (cases "fst ?run") simp_all
  from e have f0: "fst (fst ?run ! 0) = hd ?nodes" by (cases "fst ?run") simp_all
  from t p have "length (snd (fst ?run ! 0)) = length (processes (properties (fst (fst ?run ! 0))))"
    by blast
  then have s: "length (snd (fst ?run ! 0)) = 51" by (simp only: f0 n)
  note o = first_owned [OF e generateNodes_obj_facts(2) s]
  from o(3) have "50 < snd (snd ?run)" by simp
  with t have x: "\<exists>!p. p < length (fst ?run) \<and> 50 \<in> set (snd (fst ?run ! p))"
    by blast
  from t g1 have e1: "map fst (fst ?run1) = hd ?nodes1 # rest1" by simp
  then have p1: "0 < length (fst ?run1)" by (cases "fst ?run1") simp_all
  from e1 have f1: "fst (fst ?run1 ! 0) = hd ?nodes1" by (cases "fst ?run1") simp_all
  from t p1 have "length (snd (fst ?run1 ! 0)) = length (processes (properties (fst (fst ?run1 ! 0))))"
    by blast
  then have s1: "length (snd (fst ?run1 ! 0)) = 51" by (simp only: f1 n1)
  note o1 = first_owned [OF e1 generateNodes_v1_obj_facts(2) s1]
  show ?thesis
    by (intro conjI) (rule unit_rnd_half, rule m, rule n, rule i(1), rule i(2), rule o(1), rule o(2), rule x,
       rule m1, rule n1, rule i1, rule o1(2))
qed

text \<open>
  As the spec states it, uniqueness within the tag and the asset index, C5 fails on the
  current revision: the first Production assets of two days are different assets with the
  same tag and the same index, and each owns a process with the id
  \<^verbatim>\<open>proc-Production-0-0\<close>.
\<close>

theorem process_ids_repeat_across_dates:
  "\<exists>a\<in>set (generateNodes rnd_zero viewport two_dates).
   \<exists>b\<in>set (generateNodes rnd_zero viewport two_dates).
      n_date a \<noteq> n_date b \<and> n_tag a = n_tag b \<and> pr_name (properties a) = pr_name (properties b) \<and>
      (\<exists>p\<in>set (processes (properties a)). \<exists>q\<in>set (processes (properties b)). p_id p = p_id q)"
proof -
  have d: "distinct two_dates" "''2024-05-01'' \<in> set two_dates" "''2024-05-02'' \<in> set two_dates"
    by (simp_all add: two_dates_def)
  from date_first_asset [OF unit_rnd_zero d(1) d(2), of viewport] obtain a where
    a: "a \<in> set (generateNodes rnd_zero viewport two_dates)" "n_date a = ''2024-05-01''"
      "n_tag a = ''Production''" "pr_name (properties a) = ''Production Asset 0''"
      "\<exists>p\<in>set (processes (properties a)). p_id p = ''proc-Production-0-0''"
    by blast
  from date_first_asset [OF unit_rnd_zero d(1) d(3), of viewport] obtain b where
    b: "b \<in> set (generateNodes rnd_zero viewport two_dates)" "n_date b = ''2024-05-02''"
      "n_tag b = ''Production''" "pr_name (properties b) = ''Production Asset 0''"
      "\<exists>p\<in>set (processes (properties b)). p_id p = ''proc-Production-0-0''"
    by blast
  have "n_date a \<noteq> n_date b" using a(2) b(2) by simp
  moreover have "n_tag a = n_tag b" "pr_name (properties a) = pr_name (properties b)"
    using a b by simp_all
  moreover have "\<exists>p\<in>set (processes (properties a)). \<exists>q\<in>set (processes (properties b)). p_id p = p_id q"
  proof -
    from a(5) obtain p where "p \<in> set (processes (properties a))" "p_id p = ''proc-Production-0-0''" by blast
    moreover from b(5) obtain q where "q \<in> set (processes (properties b))" "p_id q = ''proc-Production-0-0''" by blast
    ultimately show ?thesis by (metis)
  qed
  ultimately show ?thesis using a(1) b(1) by blast
qed

subsection \<open>C6: the selection across a change of the date filter\<close>

text \<open>
  C6, as amended. A change of the date filter sets the current date and nothing else: the
  selected asset and the expanded process are preserved whether or not the selected asset is
  present in the newly filtered set; the selection never returns to idle on a date change.
\<close>

theorem date_change_keeps_selection:
  "selectedNode (dispatch (DateChange date) s) = selectedNode s \<and>
   expandedProcess (dispatch (DateChange date) s) = expandedProcess s \<and>
   nodes (dispatch (DateChange date) s) = nodes s \<and>
   currentDate (dispatch (DateChange date) s) = date"
  by (simp add: dispatch_def Let_def)

text \<open>
  As the spec states it, with a return to idle when the selected asset leaves the filtered
  set, C6 fails: the asset selected on the first day is not among the assets of the second
  day, and it is still selected after the date change.
\<close>

theorem selection_survives_absence:
  "selectedNode selected_state = Some (sample_node ''a'' ''2024-05-01'' [''OK'']) \<and>
   sample_node ''a'' ''2024-05-01'' [''OK''] \<in> set (filteredData selected_state) \<and>
   sample_node ''a'' ''2024-05-01'' [''OK''] \<notin> set (filteredData (dispatch (DateChange ''2024-05-02'') selected_state)) \<and>
   selectedNode (dispatch (DateChange ''2024-05-02'') selected_state) = Some (sample_node ''a'' ''2024-05-01'' [''OK'']) \<and>
   selectedNode (dispatch (DateChange ''2024-05-02'') selected_state) \<noteq> None"
  by (simp add: dispatch_def Let_def selected_state_def filteredData_def sample_node_def)

subsection \<open>C7: the dependency graph of an expanded process\<close>

text \<open>
  C7 says that every node of the generated graph has between 1 and 3 outgoing edges, and so
  does the comment \<^verbatim>\<open>1-3 connections per node\<close> beside \<^verbatim>\<open>connectionCount\<close>. The inner
  statement draws a target for each of the 1 to 3 connections and pushes the link only if
  \<^verbatim>\<open>targetIndex !== i\<close>; a node that draws itself loses that connection, for no other target
  is drawn in its place. The theorem evaluates \<open>renderProcessGraph\<close> on the source that
  always returns 0: the graph has the 15 nodes \<^verbatim>\<open>node-0\<close> to \<^verbatim>\<open>node-14\<close>, every node draws one
  connection with the target 0, the links are those from \<^verbatim>\<open>node-1\<close> to \<^verbatim>\<open>node-14\<close>, each to
  \<^verbatim>\<open>node-0\<close>, and \<^verbatim>\<open>node-0\<close> has no outgoing edge.
\<close>

theorem self_draw_leaves_no_edge:
  "unit_rng rnd_zero \<and>
   (\<exists>graphNodes links. renderProcessGraph rnd_zero ''proc-Production-0-0'' True 0 = Some (graphNodes, links) \<and>
      map gn_id graphNodes = map (\<lambda>i. ''node-'' @ string_of_nat i) [0..<15] \<and>
      links = map (\<lambda>i. \<lparr> l_source = ''node-'' @ string_of_nat i, l_target = ''node-0'', l_value = 1 \<rparr>) [1..<15] \<and>
      gn_id (graphNodes ! 0) = ''node-0'' \<and>
      length (filter (\<lambda>l. l_source l = gn_id (graphNodes ! 0)) links) = 0)"
proof -
  define gns where "gns = fst (forPush (mkGraphNode rnd_zero) [0..<15] (0 + 1))"
  define links where "links = fst (forPush (linksFrom rnd_zero gns) [0..<15] (snd (forPush (mkGraphNode rnd_zero) [0..<15] (0 + 1))))"
  note s = graphNodes_shape [OF gns_def]
  have n: "randomIndex (rnd_zero 0) 6 + 15 = 15" by (simp add: rnd_zero_def randomIndex_def)
  have r: "renderProcessGraph rnd_zero ''proc-Production-0-0'' True 0 = Some (gns, links)"
    unfolding renderProcessGraph_mounted n gns_def [symmetric] s(1) links_def [symmetric]
    by (rule refl)
  have i: "map gn_id gns = map (\<lambda>i. ''node-'' @ string_of_nat i) [0..<15]"
    by (simp only: gns_def graphNodes_ids)
  have l: "links = map (\<lambda>i. \<lparr> l_source = ''node-'' @ string_of_nat i, l_target = ''node-0'', l_value = 1 \<rparr>) [1..<15]"
    unfolding links_def by (rule links_zero) (simp add: s(2))
  have z: "gn_id (gns ! 0) = ''node-0''" using s(2) [of 0] by (simp add: string_of_nat_0)
  have "filter (\<lambda>l. l_source l = ''node-0'') links = []"
    unfolding l filter_map comp_def
    by (simp del: upt_rec_numeral add: string_of_nat_0 [symmetric] string_of_nat_inj filter_empty_conv)
  then have "length (filter (\<lambda>l. l_source l = gn_id (gns ! 0)) links) = 0" by (simp add: z)
  with r i l z unit_rnd_zero show ?thesis by blast
qed

subsection \<open>C8: the statuses of the problematic processes\<close>

text \<open>
  C8. For every anomalous asset of the generator (either revision), on a unit random source:
  the process at non-OK index \<open>j\<close> has status \<^verbatim>\<open>'Error'\<close> when \<open>j\<close> is even and
  \<^verbatim>\<open>'Warning'\<close> when \<open>j\<close> is odd, and the first non-OK process of the list, the one the
  selection effect expands, has status \<^verbatim>\<open>'Error'\<close>.
\<close>

theorem problematic_statuses_alternate:
  assumes "unit_rng rnd"
  shows "(\<forall>a\<in>set (generateNodes rnd dims dates). hasAnomaly a \<longrightarrow> alternates a) \<and>
         (\<forall>a\<in>set (generateNodes_v1 sim rnd dims). hasAnomaly a \<longrightarrow> alternates a)"
  using generateNodes_statusShape [OF assms] generateNodes_v1_statusShape [OF assms] statusShape_alternates
  by blast

theorem problematic_statuses_alternate_witness:
  "unit_rng rnd_zero \<and>
   hd (generateNodes rnd_zero viewport [''2024-05-01'']) \<in> set (generateNodes rnd_zero viewport [''2024-05-01'']) \<and>
   hasAnomaly (hd (generateNodes rnd_zero viewport [''2024-05-01''])) \<and>
   alternates (hd (generateNodes rnd_zero viewport [''2024-05-01''])) \<and>
   hd (generateNodes_v1 sim_still rnd_zero viewport) \<in> set (generateNodes_v1 sim_still rnd_zero viewport) \<and>
   hasAnomaly (hd (generateNodes_v1 sim_still rnd_zero viewport)) \<and>
   alternates (hd (generateNodes_v1 sim_still rnd_zero viewport))"
  using problematic_statuses_alternate [OF unit_rnd_zero, of viewport "[''2024-05-01'']" sim_still]
    first_nodes_zero unit_rnd_zero
  by blast

subsection \<open>C9: the number of processes of an asset\<close>



subsection \<open>C10: the hexagonal aggregation partitions the filtered set\<close>

text \<open>
  C10. For whatever assignment of positions to cells: every returned bin is non-empty and
  holds assets of the filtered set only; every asset of the filtered set appears in exactly
  one of the returned bins; the bins together hold as many assets as the counter displays;
  and a filtered set with zero assets yields zero bins and a counter of 0.
\<close>

theorem hexbin_partitions:
  "(\<forall>b\<in>set (bins cellOf s). b \<noteq> [] \<and> set b \<subseteq> set (filteredData s)) \<and>
   (\<forall>a\<in>set (filteredData s). \<exists>!i. i < length (bins cellOf s) \<and> a \<in> set (bins cellOf s ! i)) \<and>
   length (concat (bins cellOf s)) = totalCount s \<and>
   (filteredData s = [] \<longrightarrow> bins cellOf s = [] \<and> totalCount s = 0)"
  using hexbin_facts [where cellOf = cellOf and pts = "filteredData s"]
  by (simp add: bins_def totalCount_def hexbin_def)

theorem hexbin_partitions_witness:
  "sample_cell ! 1 \<in> set (filteredData idle_state) \<and>
   bins grid_cell idle_state = [sample_cell] \<and>
   (\<exists>!i. i < length (bins grid_cell idle_state) \<and> sample_cell ! 1 \<in> set (bins grid_cell idle_state ! i)) \<and>
   length (concat (bins grid_cell idle_state)) = 3 \<and> totalCount idle_state = 3 \<and>
   filteredData (idle_state \<lparr> currentDate := ''2024-06-01'' \<rparr>) = [] \<and>
   bins grid_cell (idle_state \<lparr> currentDate := ''2024-06-01'' \<rparr>) = [] \<and>
   totalCount (idle_state \<lparr> currentDate := ''2024-06-01'' \<rparr>) = 0"
proof -
  have a: "sample_cell ! 1 \<in> set (filteredData idle_state)"
    by (simp add: idle_state_filtered sample_cell_issues(4))
  have t: "totalCount idle_state = 3"
    by (simp add: totalCount_def idle_state_filtered sample_cell_issues(4))
  from hexbin_partitions [of grid_cell idle_state] a t
    hexbin_partitions [of grid_cell "idle_state \<lparr> currentDate := ''2024-06-01'' \<rparr>"]
    idle_state_filtered(2) idle_state_bins
  show ?thesis by simp
qed

end
